theory Spec2Isabelle
  imports Main "HOL-Library.AList" "HOL-Library.Sublist"
begin

section \<open>Python strings and bytes\<close>

text \<open>
  A Python \<open>str\<close> is a sequence of Unicode code points; it is modelled as a list of
  naturals. A \<open>bytes\<close> value (the raw content of a file) is a list of HOL characters, which
  are exactly the 256 byte values. \<open>py\<close> turns an ASCII literal into a \<open>str\<close>.
\<close>

type_synonym pystr = "nat list"
type_synonym bytes = "char list"

definition py :: "string \<Rightarrow> pystr" where
  "py s = map of_char s"

subsection \<open>\<open>str.startswith\<close>, \<open>str.lower\<close>, \<open>str.rfind\<close>\<close>

definition startswith :: "pystr \<Rightarrow> pystr \<Rightarrow> bool" where
  "startswith s p = prefix p s"

text \<open>
  \<open>str.lower\<close> is a function of the Python library, and its Unicode case mapping is no
  part of this repository: the functions that call it (\<open>__init__\<close>, \<open>find_target_files\<close>
  and, through it, \<open>run\<close>) take it as their parameter \<open>lower\<close>, and what they do is stated
  for every such function.

  \<open>ascii_lower\<close> is \<open>str.lower\<close> on the strings of ASCII code points: the letters
  \<open>A\<close>..\<open>Z\<close> (65..90) become \<open>a\<close>..\<open>z\<close>, nothing else changes. The examples, whose
  strings are all ASCII, run with it. \<open>python_lower\<close> collects what is assumed of
  \<open>str.lower\<close> where a statement needs it: on ASCII strings it is \<open>ascii_lower\<close>, lowering
  twice is lowering once, and a leading dot stays in place.
\<close>

definition is_ascii :: "pystr \<Rightarrow> bool" where
  "is_ascii s = list_all (\<lambda>c. c < 128) s"

definition ascii_lower_cp :: "nat \<Rightarrow> nat" where
  "ascii_lower_cp c = (if 65 \<le> c \<and> c \<le> 90 then c + 32 else c)"

definition ascii_lower :: "pystr \<Rightarrow> pystr" where
  "ascii_lower s = map ascii_lower_cp s"

definition python_lower :: "(pystr \<Rightarrow> pystr) \<Rightarrow> bool" where
  "python_lower lower =
     ((\<forall>s. is_ascii s \<longrightarrow> lower s = ascii_lower s)
      \<and> (\<forall>s. lower (lower s) = lower s)
      \<and> (\<forall>s. startswith s (py ''.'') \<longrightarrow> startswith (lower s) (py ''.'')))"

text \<open>
  \<open>name.rfind('.')\<close>: the highest index of a dot, or \<open>None\<close> where Python returns \<open>-1\<close>.
\<close>

fun rfind_dot :: "pystr \<Rightarrow> nat option" where
  "rfind_dot [] = None"
| "rfind_dot (c # cs) =
     (case rfind_dot cs of
        Some i \<Rightarrow> Some (Suc i)
      | None \<Rightarrow> (if c = 46 then Some 0 else None))"

subsection \<open>\<open>str.replace\<close> and \<open>str.count\<close>\<close>

text \<open>
  Both scan from the left and take non-overlapping occurrences. With an empty pattern Python
  counts \<open>len(s) + 1\<close> occurrences and \<open>replace\<close> inserts the new string before every
  character and at the end.
\<close>

fun replace_scan :: "pystr \<Rightarrow> pystr \<Rightarrow> pystr \<Rightarrow> pystr" where
  "replace_scan [] old new = []"
| "replace_scan (c # cs) old new =
     (if old \<noteq> [] \<and> prefix old (c # cs)
      then new @ replace_scan (drop (length old - 1) cs) old new
      else c # replace_scan cs old new)"

definition str_replace :: "pystr \<Rightarrow> pystr \<Rightarrow> pystr \<Rightarrow> pystr" where
  "str_replace s old new =
     (if old = [] then new @ concat (map (\<lambda>c. c # new) s) else replace_scan s old new)"

fun count_scan :: "pystr \<Rightarrow> pystr \<Rightarrow> nat" where
  "count_scan [] sub = 0"
| "count_scan (c # cs) sub =
     (if sub \<noteq> [] \<and> prefix sub (c # cs)
      then Suc (count_scan (drop (length sub - 1) cs) sub)
      else count_scan cs sub)"

definition str_count :: "pystr \<Rightarrow> pystr \<Rightarrow> nat" where
  "str_count s sub = (if sub = [] then length s + 1 else count_scan s sub)"

subsection \<open>Text files: UTF-8 with \<open>errors='ignore'\<close>, universal newlines\<close>

text \<open>
  \<open>open(path, 'r', encoding='utf-8', errors='ignore').read()\<close> decodes the bytes of the file
  as UTF-8, skipping every ill-formed sequence, and then translates \<open>\r\n\<close> and \<open>\r\<close> to
  \<open>\n\<close>. The decoder follows CPython's: a byte that cannot start a sequence is skipped alone;
  after a lead byte, the bytes up to the first one that cannot continue the sequence are
  skipped; a sequence cut off by the end of the data is skipped whole. Overlong forms,
  surrogates (U+D800..U+DFFF) and values above U+10FFFF are ill-formed.
\<close>

definition is_cont :: "nat \<Rightarrow> bool" where
  "is_cont b = (128 \<le> b \<and> b < 192)"

text \<open>Whether \<open>b2\<close> may follow the lead byte \<open>b\<close> as the second byte of a sequence.\<close>

definition second_ok :: "nat \<Rightarrow> nat \<Rightarrow> bool" where
  "second_ok b b2 =
     (is_cont b2 \<and>
      \<not> (b = 224 \<and> b2 < 160) \<and> \<not> (b = 237 \<and> 160 \<le> b2) \<and>
      \<not> (b = 240 \<and> b2 < 144) \<and> \<not> (b = 244 \<and> 144 \<le> b2))"

text \<open>
  One step of the decoder at the lead byte \<open>b\<close>, followed by \<open>bs\<close>: the code point
  decoded, or \<open>None\<close> for an ill-formed sequence, and the number of bytes consumed.
\<close>

definition decode_step :: "nat \<Rightarrow> nat list \<Rightarrow> nat option \<times> nat" where
  "decode_step b bs =
     (if b < 128 then (Some b, 1)
      else if b < 194 then (None, 1)
      else if b < 224 then
        (case bs of
           [] \<Rightarrow> (None, 1)
         | b2 # r2 \<Rightarrow>
             if is_cont b2 then (Some ((b - 192) * 64 + (b2 - 128)), 2) else (None, 1))
      else if b < 240 then
        (case bs of
           [] \<Rightarrow> (None, 1)
         | b2 # r2 \<Rightarrow>
             if \<not> second_ok b b2 then (None, 1)
             else
               (case r2 of
                  [] \<Rightarrow> (None, 2)
                | b3 # r3 \<Rightarrow>
                    if is_cont b3
                    then (Some ((b - 224) * 4096 + (b2 - 128) * 64 + (b3 - 128)), 3)
                    else (None, 2)))
      else if b < 245 then
        (case bs of
           [] \<Rightarrow> (None, 1)
         | b2 # r2 \<Rightarrow>
             if \<not> second_ok b b2 then (None, 1)
             else
               (case r2 of
                  [] \<Rightarrow> (None, 2)
                | b3 # r3 \<Rightarrow>
                    if \<not> is_cont b3 then (None, 2)
                    else
                      (case r3 of
                         [] \<Rightarrow> (None, 3)
                       | b4 # r4 \<Rightarrow>
                           if is_cont b4
                           then (Some ((b - 240) * 262144 + (b2 - 128) * 4096
                                         + (b3 - 128) * 64 + (b4 - 128)), 4)
                           else (None, 3))))
      else (None, 1))"

fun utf8_decode :: "nat list \<Rightarrow> pystr" where
  "utf8_decode [] = []"
| "utf8_decode (b # bs) =
     (case decode_step b bs of
        (None, n) \<Rightarrow> utf8_decode (drop (n - 1) bs)
      | (Some c, n) \<Rightarrow> c # utf8_decode (drop (n - 1) bs))"

fun universal_newlines :: "pystr \<Rightarrow> pystr" where
  "universal_newlines [] = []"
| "universal_newlines [c] = [if c = 13 then 10 else c]"
| "universal_newlines (c # d # cs) =
     (if c = 13 \<and> d = 10 then 10 # universal_newlines cs
      else if c = 13 then 10 # universal_newlines (d # cs)
      else c # universal_newlines (d # cs))"

definition decode_text :: "bytes \<Rightarrow> pystr" where
  "decode_text data = universal_newlines (utf8_decode (map of_char data))"

text \<open>
  \<open>f.write(content)\<close> on a file opened with \<open>encoding='utf-8'\<close>: a surrogate code point
  cannot be encoded and raises \<open>UnicodeEncodeError\<close> (\<open>None\<close> here). The line separator is
  the POSIX one, so \<open>\n\<close> is written as it is.
\<close>

definition surrogate :: "nat \<Rightarrow> bool" where
  "surrogate c = (55296 \<le> c \<and> c < 57344)"

definition encode_cp :: "nat \<Rightarrow> nat list option" where
  "encode_cp c =
     (if c < 128 then Some [c]
      else if c < 2048 then Some [192 + c div 64, 128 + c mod 64]
      else if surrogate c then None
      else if c < 65536 then Some [224 + c div 4096, 128 + c div 64 mod 64, 128 + c mod 64]
      else Some [240 + c div 262144, 128 + c div 4096 mod 64, 128 + c div 64 mod 64,
                 128 + c mod 64])"

fun utf8_encode :: "pystr \<Rightarrow> nat list option" where
  "utf8_encode [] = Some []"
| "utf8_encode (c # cs) =
     (case encode_cp c of
        None \<Rightarrow> None
      | Some bs \<Rightarrow> (case utf8_encode cs of None \<Rightarrow> None | Some r \<Rightarrow> Some (bs @ r)))"

definition encode_text :: "pystr \<Rightarrow> bytes option" where
  "encode_text s = map_option (map char_of) (utf8_encode s)"


subsection \<open>\<open>re.match\<close> on the address pattern\<close>

text \<open>
  The fragment of regular expressions that \<open>ip_pattern\<close> uses. \<open>rmatch r s\<close> lists what is
  left of \<open>s\<close> after each way \<open>r\<close> can match at its start. \<open>[0-9]\<close> is the ten ASCII digits.
\<close>

datatype regex =
    Digit
  | Lit nat
  | Seq regex regex
  | Repeat nat nat regex

definition is_digit :: "nat \<Rightarrow> bool" where
  "is_digit c = (48 \<le> c \<and> c \<le> 57)"

primrec rsize :: "regex \<Rightarrow> nat" where
  "rsize Digit = 0"
| "rsize (Lit a) = 0"
| "rsize (Seq r1 r2) = Suc (rsize r1 + rsize r2)"
| "rsize (Repeat m n r) = Suc (rsize r + m + n)"

function (sequential) rmatch :: "regex \<Rightarrow> pystr \<Rightarrow> pystr list" where
  "rmatch Digit s = (case s of [] \<Rightarrow> [] | c # cs \<Rightarrow> if is_digit c then [cs] else [])"
| "rmatch (Lit a) s = (case s of [] \<Rightarrow> [] | c # cs \<Rightarrow> if c = a then [cs] else [])"
| "rmatch (Seq r1 r2) s = concat (map (\<lambda>t. rmatch r2 t) (rmatch r1 s))"
| "rmatch (Repeat 0 0 r) s = [s]"
| "rmatch (Repeat (Suc m) 0 r) s = []"
| "rmatch (Repeat 0 (Suc n) r) s =
     concat (map (\<lambda>t. rmatch (Repeat 0 n r) t) (rmatch r s)) @ [s]"
| "rmatch (Repeat (Suc m) (Suc n) r) s =
     concat (map (\<lambda>t. rmatch (Repeat m n r) t) (rmatch r s))"
  by pat_completeness auto
termination
  by (relation "measure (\<lambda>(r, s). rsize r)") auto

text \<open>
  \<open>re.match('^...$', s)\<close>: \<open>^\<close> anchors at the start; \<open>$\<close> (without \<open>re.MULTILINE\<close>)
  matches at the end of the string and also just before a newline that ends the string.
\<close>

definition re_match_anchored :: "regex \<Rightarrow> pystr \<Rightarrow> bool" where
  "re_match_anchored r s = (\<exists>t \<in> set (rmatch r s). t = [] \<or> t = [10])"

text \<open>\<^verbatim>\<open>ip_pattern = r'^(?:[0-9]{1,3}\.){3}[0-9]{1,3}$'\<close>\<close>

definition ip_pattern :: regex where
  "ip_pattern = Seq (Repeat 3 3 (Seq (Repeat 1 3 Digit) (Lit 46))) (Repeat 1 3 Digit)"

section \<open>The file system\<close>

text \<open>
  A path is the list of its components. The file system is a tree: a regular file carries
  its bytes and whether it may be opened for reading and for writing; a directory carries
  its entries, in the order a scan lists them, and whether an entry may be created in it.
  Every I/O failure of the program is the failure of an \<open>open\<close>.
\<close>

type_synonym path = "pystr list"

datatype node =
    File bool bool bytes
  | Dir bool "(pystr \<times> node) list"

datatype value_error =
    DirectoryDoesNotExist
  | PathIsNotADirectory
  | InvalidOldIP
  | InvalidNewIP
  | SameIP
  | InvalidSuffix
  | EmptyName

datatype exn =
    FileNotFoundError
  | NotADirectoryError
  | IsADirectoryError
  | PermissionError
  | UnicodeEncodeError
  | ValueError value_error

fun lookup :: "node \<Rightarrow> path \<Rightarrow> exn + node" where
  "lookup n [] = Inr n"
| "lookup (File r w d) (c # p) = Inl NotADirectoryError"
| "lookup (Dir cr es) (c # p) =
     (case map_of es c of None \<Rightarrow> Inl FileNotFoundError | Some n \<Rightarrow> lookup n p)"

definition exists :: "node \<Rightarrow> path \<Rightarrow> bool" where
  "exists t p = (case lookup t p of Inl e \<Rightarrow> False | Inr n \<Rightarrow> True)"

definition is_dir :: "node \<Rightarrow> path \<Rightarrow> bool" where
  "is_dir t p = (case lookup t p of Inr (Dir cr es) \<Rightarrow> True | _ \<Rightarrow> False)"

text \<open>\<open>path.read_bytes()\<close>, and the reading half of \<open>open(path, 'r')\<close>.\<close>

definition read_bytes :: "node \<Rightarrow> path \<Rightarrow> exn + bytes" where
  "read_bytes t p =
     (case lookup t p of
        Inl e \<Rightarrow> Inl e
      | Inr (Dir cr es) \<Rightarrow> Inl IsADirectoryError
      | Inr (File r w d) \<Rightarrow> if r then Inr d else Inl PermissionError)"

text \<open>
  Opening a path for writing and storing \<open>d\<close>: an existing file is overwritten when it is
  writable, a missing one is created (readable and writable) when its directory allows it.
\<close>

fun write_bytes :: "node \<Rightarrow> path \<Rightarrow> bytes \<Rightarrow> exn + node" where
  "write_bytes (File r w old) [] d = (if w then Inr (File r w d) else Inl PermissionError)"
| "write_bytes (Dir cr es) [] d = Inl IsADirectoryError"
| "write_bytes (File r w old) (c # p) d = Inl NotADirectoryError"
| "write_bytes (Dir cr es) (c # p) d =
     (case map_of es c of
        None \<Rightarrow>
          if p \<noteq> [] then Inl FileNotFoundError
          else if cr then Inr (Dir cr (AList.update c (File True True d) es))
          else Inl PermissionError
      | Some n \<Rightarrow>
          (case write_bytes n p d of
             Inl e \<Rightarrow> Inl e
           | Inr n' \<Rightarrow> Inr (Dir cr (AList.update c n' es))))"

text \<open>The text read by \<open>open(path, 'r', encoding='utf-8', errors='ignore').read()\<close>.\<close>

definition read_text :: "node \<Rightarrow> path \<Rightarrow> exn + pystr" where
  "read_text t p = (case read_bytes t p of Inl e \<Rightarrow> Inl e | Inr d \<Rightarrow> Inr (decode_text d))"

text \<open>
  \<open>with open(path, 'w', encoding='utf-8') as f: f.write(content)\<close>: the \<open>open\<close> truncates the
  file before anything is encoded, so a \<open>UnicodeEncodeError\<close> leaves the file empty.
\<close>

definition write_text :: "node \<Rightarrow> path \<Rightarrow> pystr \<Rightarrow> (exn + unit) \<times> node" where
  "write_text t p content =
     (case write_bytes t p [] of
        Inl e \<Rightarrow> (Inl e, t)
      | Inr t0 \<Rightarrow>
          (case encode_text content of
             None \<Rightarrow> (Inl UnicodeEncodeError, t0)
           | Some d \<Rightarrow>
               (case write_bytes t0 p d of
                  Inl e \<Rightarrow> (Inl e, t0)
                | Inr t1 \<Rightarrow> (Inr (), t1))))"

text \<open>
  \<open>os.walk(root)\<close>, top-down: one triple (directory, names of its subdirectories, names of
  its other entries) per directory. A root that is not a directory yields nothing.
\<close>

fun is_Dir :: "node \<Rightarrow> bool" where
  "is_Dir (Dir cr es) = True"
| "is_Dir (File r w d) = False"

fun walk :: "path \<Rightarrow> node \<Rightarrow> (path \<times> pystr list \<times> pystr list) list" where
  "walk root (File r w d) = []"
| "walk root (Dir cr es) =
     (root, map fst (filter (\<lambda>e. is_Dir (snd e)) es),
           map fst (filter (\<lambda>e. \<not> is_Dir (snd e)) es))
     # concat (map (\<lambda>e. walk (root @ [fst e]) (snd e)) (filter (\<lambda>e. is_Dir (snd e)) es))"

definition os_walk :: "node \<Rightarrow> path \<Rightarrow> (path \<times> pystr list \<times> pystr list) list" where
  "os_walk t root = (case lookup t root of Inl e \<Rightarrow> [] | Inr n \<Rightarrow> walk root n)"

subsection \<open>\<open>pathlib\<close>: \<open>suffix\<close> and \<open>with_suffix\<close>\<close>

text \<open>
  \<open>suffix\<close> of a name: from its last dot on, unless that dot is the first or the last
  character of the name (then, and when there is no dot, the suffix is empty).
\<close>

definition name_suffix :: "pystr \<Rightarrow> pystr" where
  "name_suffix name =
     (case rfind_dot name of
        None \<Rightarrow> []
      | Some i \<Rightarrow> if 0 < i \<and> i < length name - 1 then drop i name else [])"

definition path_name :: "path \<Rightarrow> pystr" where
  "path_name p = (if p = [] then [] else last p)"

definition suffix_of :: "path \<Rightarrow> pystr" where
  "suffix_of p = name_suffix (path_name p)"

definition with_suffix :: "path \<Rightarrow> pystr \<Rightarrow> exn + path" where
  "with_suffix p sfx =
     (if 47 \<in> set sfx then Inl (ValueError InvalidSuffix)
      else if (sfx \<noteq> [] \<and> \<not> startswith sfx (py ''.'')) \<or> sfx = py ''.''
        then Inl (ValueError InvalidSuffix)
      else if path_name p = [] then Inl (ValueError EmptyName)
      else
        let name = path_name p; old_suffix = suffix_of p;
            name' = (if old_suffix = [] then name @ sfx
                     else take (length name - length old_suffix) name @ sfx)
        in Inr (butlast p @ [name']))"

section \<open>The updater\<close>

subsection \<open>State\<close>

text \<open>
  The object of class \<open>LinkUpdater\<close>: its configuration and its three counters (Python
  integers). The logger is part of the world the program acts on, next to the file system;
  each call of the logger appends its level and message.
\<close>

record LinkUpdater =
  directory :: path
  old_ip :: pystr
  new_ip :: pystr
  extensions :: "pystr list"
  backup :: bool
  dry_run :: bool
  files_processed :: int
  files_modified :: int
  replacements_made :: int

datatype level = DEBUG | INFO | WARNING | ERROR

datatype message =
    CreatedBackup path
  | FailedToCreateBackup path exn
  | DryRunWouldModify path int
  | Modified path int
  | NoChangesNeeded path
  | ErrorProcessing path exn
  | Starting
  | DirectoryIs path
  | FileExtensions "pystr list"
  | Replacing pystr pystr
  | BackupEnabled bool
  | DryRunIs bool
  | NoFilesFound "pystr list"
  | FoundFiles nat
  | Rule
  | Summary
  | FilesProcessed int
  | FilesModified int
  | TotalReplacements int
  | WasDryRun
  | BackupFilesCreated
  | Error exn

record world =
  fs :: node
  logged :: "(level \<times> message) list"

definition emit :: "level \<Rightarrow> message \<Rightarrow> world \<Rightarrow> world" where
  "emit l m w = w\<lparr>logged := logged w @ [(l, m)]\<rparr>"

subsection \<open>\<open>__init__\<close>\<close>

definition default_extensions :: "pystr list" where
  "default_extensions = [py ''.html'', py ''.htm'']"

definition init ::
  "(pystr \<Rightarrow> pystr) \<Rightarrow> path \<Rightarrow> pystr \<Rightarrow> pystr \<Rightarrow> pystr list option \<Rightarrow> bool \<Rightarrow> bool
     \<Rightarrow> LinkUpdater" where
  "init lower dir old new exts bk dry =
     (let e0 = (case exts of
                  None \<Rightarrow> default_extensions
                | Some es \<Rightarrow> if es = [] then default_extensions else es);
          e1 = map (\<lambda>ext. if startswith ext (py ''.'') then ext else py ''.'' @ ext) e0;
          e2 = map lower e1
      in \<lparr>directory = dir, old_ip = old, new_ip = new, extensions = e2,
          backup = bk, dry_run = dry,
          files_processed = 0, files_modified = 0, replacements_made = 0\<rparr>)"

subsection \<open>\<open>validate_inputs\<close>\<close>

definition validate_inputs :: "LinkUpdater \<Rightarrow> node \<Rightarrow> exn + unit" where
  "validate_inputs self t =
     (if \<not> exists t (directory self) then Inl (ValueError DirectoryDoesNotExist)
      else if \<not> is_dir t (directory self) then Inl (ValueError PathIsNotADirectory)
      else if \<not> re_match_anchored ip_pattern (old_ip self) then Inl (ValueError InvalidOldIP)
      else if \<not> re_match_anchored ip_pattern (new_ip self) then Inl (ValueError InvalidNewIP)
      else if old_ip self = new_ip self then Inl (ValueError SameIP)
      else Inr ())"

subsection \<open>\<open>find_target_files\<close>\<close>

definition find_target_files :: "(pystr \<Rightarrow> pystr) \<Rightarrow> LinkUpdater \<Rightarrow> node \<Rightarrow> path list" where
  "find_target_files lower self t =
     concat (map (\<lambda>(root, dirs, files).
                    map (\<lambda>file. root @ [file])
                      (filter (\<lambda>file. lower (name_suffix file) \<in> set (extensions self))
                         files))
               (os_walk t (directory self)))"

subsection \<open>\<open>backup_file\<close>\<close>

text \<open>
  The backup path is computed outside the \<open>try\<close>; a failure of the copy is logged and
  raised again.
\<close>

definition backup_file :: "LinkUpdater \<Rightarrow> world \<Rightarrow> path \<Rightarrow> (exn + unit) \<times> world" where
  "backup_file self w file_path =
     (case with_suffix file_path (suffix_of file_path @ py ''.bak'') of
        Inl e \<Rightarrow> (Inl e, w)
      | Inr backup_path \<Rightarrow>
          (case read_bytes (fs w) file_path of
             Inl e \<Rightarrow> (Inl e, emit ERROR (FailedToCreateBackup file_path e) w)
           | Inr d \<Rightarrow>
               (case write_bytes (fs w) backup_path d of
                  Inl e \<Rightarrow> (Inl e, emit ERROR (FailedToCreateBackup file_path e) w)
                | Inr t \<Rightarrow> (Inr (), emit DEBUG (CreatedBackup backup_path) (w\<lparr>fs := t\<rparr>)))))"

subsection \<open>\<open>process_file\<close>\<close>

text \<open>
  The whole body is inside \<open>try\<close> ... \<open>except Exception\<close>: an exception is logged and
  swallowed, and the statements after the point where it was raised are not executed.
  The counters are attributes of the object, so what was added to them before the
  exception stays.
\<close>

definition process_file :: "LinkUpdater \<Rightarrow> world \<Rightarrow> path \<Rightarrow> LinkUpdater \<times> world" where
  "process_file self w file_path =
     (case read_text (fs w) file_path of
        Inl e \<Rightarrow> (self, emit ERROR (ErrorProcessing file_path e) w)
      | Inr original_content \<Rightarrow>
          let content = str_replace original_content (old_ip self) (new_ip self);
              file_replacements = int (str_count content (new_ip self))
                                  - int (str_count original_content (new_ip self))
          in
            if content \<noteq> original_content then
              let self1 = self\<lparr>files_modified := files_modified self + 1,
                               replacements_made := replacements_made self + file_replacements\<rparr>
              in
                if dry_run self1 then
                  (self1\<lparr>files_processed := files_processed self1 + 1\<rparr>,
                   emit INFO (DryRunWouldModify file_path file_replacements) w)
                else
                  (case (if backup self1 then backup_file self1 w file_path else (Inr (), w)) of
                     (Inl e, w1) \<Rightarrow> (self1, emit ERROR (ErrorProcessing file_path e) w1)
                   | (Inr u, w1) \<Rightarrow>
                       (case write_text (fs w1) file_path content of
                          (Inl e, t) \<Rightarrow>
                            (self1, emit ERROR (ErrorProcessing file_path e) (w1\<lparr>fs := t\<rparr>))
                        | (Inr u', t) \<Rightarrow>
                            (self1\<lparr>files_processed := files_processed self1 + 1\<rparr>,
                             emit INFO (Modified file_path file_replacements)
                               (w1\<lparr>fs := t\<rparr>))))
            else
              (self\<lparr>files_processed := files_processed self + 1\<rparr>,
               emit DEBUG (NoChangesNeeded file_path) w))"

subsection \<open>\<open>run\<close>\<close>

text \<open>The loop \<open>for file_path in target_files: self.process_file(file_path)\<close>.\<close>

fun process_files :: "LinkUpdater \<Rightarrow> world \<Rightarrow> path list \<Rightarrow> LinkUpdater \<times> world" where
  "process_files self w [] = (self, w)"
| "process_files self w (file_path # rest) =
     (case process_file self w file_path of (self', w') \<Rightarrow> process_files self' w' rest)"

definition log_start :: "LinkUpdater \<Rightarrow> world \<Rightarrow> world" where
  "log_start self w =
     emit INFO (DryRunIs (dry_run self))
       (emit INFO (BackupEnabled (backup self))
         (emit INFO (Replacing (old_ip self) (new_ip self))
           (emit INFO (FileExtensions (extensions self))
             (emit INFO (DirectoryIs (directory self))
               (emit INFO Starting w)))))"

definition log_summary :: "LinkUpdater \<Rightarrow> world \<Rightarrow> world" where
  "log_summary self w =
     (let w1 = emit INFO (TotalReplacements (replacements_made self))
                 (emit INFO (FilesModified (files_modified self))
                   (emit INFO (FilesProcessed (files_processed self))
                     (emit INFO Rule (emit INFO Summary (emit INFO Rule w)))))
      in if dry_run self then emit INFO WasDryRun w1
         else if backup self \<and> files_modified self > 0 then emit INFO BackupFilesCreated w1
         else w1)"

text \<open>
  \<open>run\<close> either returns, and the process then ends with exit status 0, or calls
  \<open>sys.exit(1)\<close> from its handler. Only \<open>validate_inputs\<close> raises into that handler:
  \<open>process_file\<close> swallows its own exceptions.
\<close>

datatype outcome = Returned | SysExit nat

fun exit_status :: "outcome \<Rightarrow> nat" where
  "exit_status Returned = 0"
| "exit_status (SysExit n) = n"

definition run ::
  "(pystr \<Rightarrow> pystr) \<Rightarrow> LinkUpdater \<Rightarrow> world \<Rightarrow> outcome \<times> LinkUpdater \<times> world" where
  "run lower self w =
     (case validate_inputs self (fs w) of
        Inl e \<Rightarrow> (SysExit 1, self, emit ERROR (Error e) w)
      | Inr u \<Rightarrow>
          let w1 = log_start self w;
              target_files = find_target_files lower self (fs w1)
          in
            if target_files = [] then
              (Returned, self, emit WARNING (NoFilesFound (extensions self)) w1)
            else
              (case process_files self (emit INFO (FoundFiles (length target_files)) w1)
                      target_files of
                 (self', w2) \<Rightarrow> (Returned, self', log_summary self' w2)))"

section \<open>Observations\<close>

text \<open>
  What the statements below observe of a file system: the regular file stored at a path
  (its two permissions and its bytes), if there is one.
\<close>

definition file_at :: "node \<Rightarrow> path \<Rightarrow> (bool \<times> bool \<times> bytes) option" where
  "file_at t p = (case lookup t p of Inr (File r w d) \<Rightarrow> Some (r, w, d) | _ \<Rightarrow> None)"

text \<open>The sibling that \<open>backup_file\<close> writes: the name of the file with \<open>.bak\<close> appended.\<close>

definition backup_path :: "path \<Rightarrow> path" where
  "backup_path p = butlast p @ [path_name p @ py ''.bak'']"

text \<open>Whether \<open>process_file\<close> would find the text of a file changed by the replacement.\<close>

definition would_change :: "LinkUpdater \<Rightarrow> node \<Rightarrow> path \<Rightarrow> bool" where
  "would_change self t p =
     (case read_text t p of
        Inl e \<Rightarrow> False
      | Inr s \<Rightarrow> str_replace s (old_ip self) (new_ip self) \<noteq> s)"

text \<open>A string that UTF-8 can encode: one without a surrogate code point.\<close>

definition encodable :: "pystr \<Rightarrow> bool" where
  "encodable s = (utf8_encode s \<noteq> None)"

text \<open>
  The replacement count that \<open>process_file\<close> computes for a file whose text is \<open>s\<close>, and
  the object after the two counters of a changed file have been advanced.
\<close>

definition replacements :: "LinkUpdater \<Rightarrow> pystr \<Rightarrow> int" where
  "replacements self s =
     int (str_count (str_replace s (old_ip self) (new_ip self)) (new_ip self))
       - int (str_count s (new_ip self))"

definition counted :: "LinkUpdater \<Rightarrow> pystr \<Rightarrow> LinkUpdater" where
  "counted self s =
     self\<lparr>files_modified := files_modified self + 1,
          replacements_made := replacements_made self + replacements self s\<rparr>"

text \<open>The literal characters of a pattern.\<close>

primrec lits :: "regex \<Rightarrow> nat list" where
  "lits Digit = []"
| "lits (Lit a) = [a]"
| "lits (Seq r1 r2) = lits r1 @ lits r2"
| "lits (Repeat m n r) = lits r"

text \<open>A Unicode scalar value: a code point that is not a surrogate.\<close>

definition scalar :: "nat \<Rightarrow> bool" where
  "scalar c = (c < 1114112 \<and> \<not> surrogate c)"

text \<open>
  The shape of an address in the words of the specification: four groups of one to three
  digits, separated by dots. \<open>split_dot\<close> is \<open>s.split('.')\<close>.
\<close>

fun split_dot :: "pystr \<Rightarrow> pystr list" where
  "split_dot [] = [[]]"
| "split_dot (c # cs) =
     (if c = 46 then [] # split_dot cs
      else (case split_dot cs of [] \<Rightarrow> [[c]] | g # gs \<Rightarrow> (c # g) # gs))"

definition digit_group :: "pystr \<Rightarrow> bool" where
  "digit_group g = (1 \<le> length g \<and> length g \<le> 3 \<and> list_all is_digit g)"

definition spec_ip_shape :: "pystr \<Rightarrow> bool" where
  "spec_ip_shape s = (length (split_dot s) = 4 \<and> list_all digit_group (split_dot s))"

section \<open>Example inputs\<close>

text \<open>
  A directory \<open>site\<close> holding one file \<open>a.html\<close>: whether an entry may be created in the
  directory, whether the file may be read and written, and its bytes.
\<close>

definition one_file :: "bool \<Rightarrow> bool \<Rightarrow> bool \<Rightarrow> bytes \<Rightarrow> node" where
  "one_file cr r w d = Dir True [(py ''site'', Dir cr [(py ''a.html'', File r w d)])]"

text \<open>The same directory with a second file \<open>b.txt\<close> of the same content.\<close>

definition two_files :: "bytes \<Rightarrow> node" where
  "two_files d =
     Dir True [(py ''site'', Dir True [(py ''a.html'', File True True d),
                                      (py ''b.txt'', File True True d)])]"

definition a_html :: path where
  "a_html = [py ''site'', py ''a.html'']"

definition b_txt :: path where
  "b_txt = [py ''site'', py ''b.txt'']"

text \<open>
  An updater for \<open>site\<close> and the extension \<open>.html\<close>, and a world with an empty log.
  All strings of the examples are ASCII, so \<open>lower\<close> is \<open>ascii_lower\<close> in them.
\<close>

definition updater :: "string \<Rightarrow> string \<Rightarrow> bool \<Rightarrow> bool \<Rightarrow> LinkUpdater" where
  "updater old new bk dry =
     init ascii_lower [py ''site''] (py old) (py new) (Some [py ''.html'']) bk dry"

definition world_of :: "node \<Rightarrow> world" where
  "world_of t = \<lparr>fs = t, logged = []\<rparr>"

text \<open>The object and the tree that a run on a tree, with an empty log, leaves behind.\<close>

definition updater_after_run :: "LinkUpdater \<Rightarrow> node \<Rightarrow> LinkUpdater" where
  "updater_after_run self t = fst (snd (run ascii_lower self (world_of t)))"

definition tree_after_run :: "LinkUpdater \<Rightarrow> node \<Rightarrow> node" where
  "tree_after_run self t = fs (snd (snd (run ascii_lower self (world_of t))))"

text \<open>The directory \<open>site\<close> with \<open>a.html\<close> and an older backup \<open>a.html.bak\<close> of it.\<close>

definition with_old_backup :: "bytes \<Rightarrow> bytes \<Rightarrow> node" where
  "with_old_backup d old =
     Dir True [(py ''site'', Dir True [(py ''a.html'', File True True d),
                                      (py ''a.html.bak'', File True True old)])]"

section \<open>Properties of \<open>replace\<close> and \<open>count\<close>\<close>

lemma prefix_split:
  "prefix old (c # cs) \<Longrightarrow> old \<noteq> [] \<Longrightarrow> c # cs = old @ drop (length old - 1) cs"
  by (cases old) (auto simp: prefix_def)

lemma replace_scan_hit:
  "old \<noteq> [] \<and> prefix old (c # cs) \<Longrightarrow>
     replace_scan (c # cs) old new = new @ replace_scan (drop (length old - 1) cs) old new"
  by (subst replace_scan.simps(2)) (simp only: if_True simp_thms)

lemma replace_scan_miss:
  "\<not> (old \<noteq> [] \<and> prefix old (c # cs)) \<Longrightarrow>
     replace_scan (c # cs) old new = c # replace_scan cs old new"
  by (subst replace_scan.simps(2)) (simp only: if_False simp_thms)

lemma count_scan_hit:
  "sub \<noteq> [] \<and> prefix sub (c # cs) \<Longrightarrow>
     count_scan (c # cs) sub = Suc (count_scan (drop (length sub - 1) cs) sub)"
  by (subst count_scan.simps(2)) (simp only: if_True simp_thms)

lemma count_scan_miss:
  "\<not> (sub \<noteq> [] \<and> prefix sub (c # cs)) \<Longrightarrow> count_scan (c # cs) sub = count_scan cs sub"
  by (subst count_scan.simps(2)) (simp only: if_False simp_thms)

lemma count_scan_zero_replace:
  "count_scan s old = 0 \<Longrightarrow> replace_scan s old new = s"
proof (induction s old new rule: replace_scan.induct)
  case (1 old new)
  show ?case by simp
next
  case (2 c cs old new)
  show ?case
  proof (cases "old \<noteq> [] \<and> prefix old (c # cs)")
    case True
    then have "count_scan (c # cs) old = Suc (count_scan (drop (length old - 1) cs) old)"
      by (rule count_scan_hit)
    with 2(3) show ?thesis by simp
  next
    case False
    then have "count_scan (c # cs) old = count_scan cs old" by (rule count_scan_miss)
    with 2(3) have "count_scan cs old = 0" by simp
    with 2(2) False have "replace_scan cs old new = cs" by blast
    moreover have "replace_scan (c # cs) old new = c # replace_scan cs old new"
      using False by (rule replace_scan_miss)
    ultimately show ?thesis by simp
  qed
qed

lemma replace_scan_length:
  "int (length (replace_scan s old new)) =
     int (length s) + int (count_scan s old) * (int (length new) - int (length old))"
proof (induction s old new rule: replace_scan.induct)
  case (1 old new)
  then show ?case by simp
next
  case (2 c cs old new)
  show ?case
  proof (cases "old \<noteq> [] \<and> prefix old (c # cs)")
    case True
    let ?d = "drop (length old - 1) cs"
    have len: "int (length (c # cs)) = int (length old) + int (length ?d)"
      using True prefix_split[of old c cs] by (metis length_append of_nat_add)
    have r: "replace_scan (c # cs) old new = new @ replace_scan ?d old new"
      using True by (rule replace_scan_hit)
    have k: "count_scan (c # cs) old = Suc (count_scan ?d old)"
      using True by (rule count_scan_hit)
    have ih: "int (length (replace_scan ?d old new)) =
      int (length ?d) + int (count_scan ?d old) * (int (length new) - int (length old))"
      using 2(1) True by blast
    show ?thesis unfolding r k len using ih by (simp add: algebra_simps)
  next
    case False
    have r: "replace_scan (c # cs) old new = c # replace_scan cs old new"
      using False by (rule replace_scan_miss)
    have k: "count_scan (c # cs) old = count_scan cs old"
      using False by (rule count_scan_miss)
    have ih: "int (length (replace_scan cs old new)) =
      int (length cs) + int (count_scan cs old) * (int (length new) - int (length old))"
      using 2(2) False by blast
    show ?thesis unfolding r k using ih by simp
  qed
qed

lemma replace_scan_changes:
  "old \<noteq> new \<Longrightarrow> 0 < count_scan s old \<Longrightarrow> replace_scan s old new \<noteq> s"
proof (induction s old new rule: replace_scan.induct)
  case (1 old new)
  then show ?case by simp
next
  case (2 c cs old new)
  show ?case
  proof (cases "old \<noteq> [] \<and> prefix old (c # cs)")
    case True
    let ?d = "drop (length old - 1) cs"
    have s: "c # cs = old @ ?d" using True prefix_split[of old c cs] by simp
    have r: "replace_scan (c # cs) old new = new @ replace_scan ?d old new"
      using True by (rule replace_scan_hit)
    show ?thesis
    proof (cases "length new = length old")
      case eq: True
      show ?thesis
      proof
        assume "replace_scan (c # cs) old new = c # cs"
        then have "new @ replace_scan ?d old new = old @ ?d" using r s by simp
        with eq have "new = old" by (simp add: append_eq_append_conv)
        with 2(3) show False by simp
      qed
    next
      case ne: False
      have "int (length (replace_scan (c # cs) old new)) \<noteq> int (length (c # cs))"
        unfolding replace_scan_length using ne 2(4) by simp
      then show ?thesis by auto
    qed
  next
    case False
    have r: "replace_scan (c # cs) old new = c # replace_scan cs old new"
      using False by (rule replace_scan_miss)
    have "count_scan (c # cs) old = count_scan cs old"
      using False by (rule count_scan_miss)
    with 2(4) have "0 < count_scan cs old" by simp
    with 2(2) False 2(3) have "replace_scan cs old new \<noteq> cs" by blast
    with r show ?thesis by simp
  qed
qed

lemma str_replace_changes_iff:
  assumes "old \<noteq> new"
  shows "str_replace s old new \<noteq> s \<longleftrightarrow> 0 < str_count s old"
proof (cases "old = []")
  case True
  with assms have "new \<noteq> []" by auto
  have "length (concat (map (\<lambda>c. c # new) s)) \<ge> length s"
    by (induction s) auto
  then have "length (str_replace s [] new) > length s"
    using \<open>new \<noteq> []\<close> by (cases new) (simp_all add: str_replace_def)
  then show ?thesis using True by (auto simp: str_count_def)
next
  case False
  show ?thesis
  proof (cases "count_scan s old = 0")
    case True
    then have "replace_scan s old new = s" by (rule count_scan_zero_replace)
    with True False show ?thesis by (simp add: str_replace_def str_count_def)
  next
    case nz: False
    then have "replace_scan s old new \<noteq> s" using assms replace_scan_changes by simp
    with nz False show ?thesis by (simp add: str_replace_def str_count_def)
  qed
qed

lemma str_replace_same: "str_count s old = 0 \<Longrightarrow> str_replace s old new = s"
  by (cases "old = []") (simp_all add: str_count_def str_replace_def count_scan_zero_replace)

text \<open>A single occurrence: the text around it is kept and the occurrence is exchanged.\<close>

lemma replace_scan_once:
  "count_scan s old = 1 \<Longrightarrow>
     \<exists>a b. s = a @ old @ b \<and> replace_scan s old new = a @ new @ b"
proof (induction s old new rule: replace_scan.induct)
  case (1 old new)
  then show ?case by simp
next
  case (2 c cs old new)
  show ?case
  proof (cases "old \<noteq> [] \<and> prefix old (c # cs)")
    case True
    let ?d = "drop (length old - 1) cs"
    have s: "c # cs = old @ ?d" using True prefix_split[of old c cs] by simp
    have "count_scan (c # cs) old = Suc (count_scan ?d old)" using True by (rule count_scan_hit)
    with 2(3) have "count_scan ?d old = 0" by simp
    then have "replace_scan ?d old new = ?d" by (rule count_scan_zero_replace)
    then have "replace_scan (c # cs) old new = new @ ?d"
      using replace_scan_hit[OF True, of new] by simp
    with s have "c # cs = [] @ old @ ?d \<and> replace_scan (c # cs) old new = [] @ new @ ?d"
      by simp
    then show ?thesis by blast
  next
    case False
    have "count_scan (c # cs) old = count_scan cs old" using False by (rule count_scan_miss)
    with 2(3) have "count_scan cs old = 1" by simp
    with 2(2) False obtain a b where ab: "cs = a @ old @ b" "replace_scan cs old new = a @ new @ b"
      by blast
    have "replace_scan (c # cs) old new = c # replace_scan cs old new"
      using False by (rule replace_scan_miss)
    with ab have "c # cs = (c # a) @ old @ b \<and> replace_scan (c # cs) old new = (c # a) @ new @ b"
      by simp
    then show ?thesis by blast
  qed
qed

lemma str_replace_once:
  assumes "str_count s old = 1"
  shows "\<exists>a b. s = a @ old @ b \<and> str_replace s old new = a @ new @ b"
proof (cases "old = []")
  case True
  with assms have "s = []" by (simp add: str_count_def)
  with True have "s = [] @ old @ [] \<and> str_replace s old new = [] @ new @ []"
    by (simp add: str_replace_def)
  then show ?thesis by blast
next
  case False
  with assms show ?thesis using replace_scan_once[of s old new]
    by (simp add: str_count_def str_replace_def)
qed

lemma set_replace_scan: "set (replace_scan s old new) \<subseteq> set s \<union> set new"
proof (induction s old new rule: replace_scan.induct)
  case (1 old new)
  show ?case by simp
next
  case (2 c cs old new)
  show ?case
  proof (cases "old \<noteq> [] \<and> prefix old (c # cs)")
    case True
    have "set (drop (length old - 1) cs) \<subseteq> set cs" by (rule set_drop_subset)
    with 2(1) True show ?thesis unfolding replace_scan_hit[OF True] by fastforce
  next
    case False
    with 2(2) show ?thesis unfolding replace_scan_miss[OF False] by auto
  qed
qed

lemma set_str_replace: "set (str_replace s old new) \<subseteq> set s \<union> set new"
  using set_replace_scan[of s old new] by (auto simp: str_replace_def)

lemma set_universal_newlines: "set (universal_newlines s) \<subseteq> insert 10 (set s)"
  by (induction s rule: universal_newlines.induct) auto

section \<open>The decoder yields no surrogate\<close>

lemma three_byte_no_surrogate:
  assumes "224 \<le> b" "b < 240" "b2 < 192" "b3 < 192" "\<not> (b = 237 \<and> 160 \<le> b2)"
  shows "\<not> surrogate ((b - 224) * 4096 + (b2 - 128) * 64 + (b3 - 128))"
proof -
  consider "b \<le> 236" | "b = 237" "b2 < 160" | "238 \<le> b" using assms(5) by linarith
  then show ?thesis
  proof cases
    case 1
    with assms show ?thesis unfolding surrogate_def by linarith
  next
    case 2
    with assms show ?thesis unfolding surrogate_def by linarith
  next
    case 3
    with assms show ?thesis unfolding surrogate_def by linarith
  qed
qed

lemma four_byte_no_surrogate:
  assumes "240 \<le> b" "144 \<le> b2 \<or> b \<noteq> 240"
  shows "\<not> surrogate ((b - 240) * 262144 + (b2 - 128) * 4096 + (b3 - 128) * 64 + (b4 - 128))"
proof (cases "b = 240")
  case True
  with assms have "144 \<le> b2" by simp
  then show ?thesis unfolding surrogate_def by linarith
next
  case False
  with assms have "241 \<le> b" by simp
  then show ?thesis unfolding surrogate_def by linarith
qed

lemma decode_step_two:
  assumes "194 \<le> b" "b < 224" "decode_step b bs = (Some c, n)"
  obtains b2 r where "bs = b2 # r" "is_cont b2" "c = (b - 192) * 64 + (b2 - 128)" "n = 2"
  using assms by (auto simp: decode_step_def split: list.splits if_splits)

lemma decode_step_three:
  assumes "224 \<le> b" "b < 240" "decode_step b bs = (Some c, n)"
  obtains b2 b3 r where "bs = b2 # b3 # r" "second_ok b b2" "is_cont b3"
    "c = (b - 224) * 4096 + (b2 - 128) * 64 + (b3 - 128)" "n = 3"
  using assms by (auto simp: decode_step_def split: list.splits if_splits)

lemma decode_step_four:
  assumes "240 \<le> b" "b < 245" "decode_step b bs = (Some c, n)"
  obtains b2 b3 b4 r where "bs = b2 # b3 # b4 # r" "second_ok b b2" "is_cont b3" "is_cont b4"
    "c = (b - 240) * 262144 + (b2 - 128) * 4096 + (b3 - 128) * 64 + (b4 - 128)" "n = 4"
  using assms by (auto simp: decode_step_def split: list.splits if_splits)

lemma decode_step_no_surrogate:
  assumes "decode_step b bs = (Some c, n)"
  shows "\<not> surrogate c"
proof -
  consider "b < 128" | "128 \<le> b" "b < 194" | "194 \<le> b" "b < 224" | "224 \<le> b" "b < 240"
    | "240 \<le> b" "b < 245" | "245 \<le> b" by linarith
  then show ?thesis
  proof cases
    case 1
    with assms show ?thesis by (simp add: decode_step_def surrogate_def)
  next
    case 2
    with assms show ?thesis by (simp add: decode_step_def)
  next
    case 3
    from decode_step_two[OF 3 assms] obtain b2 where "is_cont b2" "c = (b - 192) * 64 + (b2 - 128)"
      by metis
    with 3 show ?thesis unfolding surrogate_def is_cont_def by linarith
  next
    case 4
    from decode_step_three[OF 4 assms] obtain b2 b3 where "second_ok b b2" "is_cont b3"
      "c = (b - 224) * 4096 + (b2 - 128) * 64 + (b3 - 128)" by metis
    with 4 show ?thesis using three_byte_no_surrogate[of b b2 b3]
      by (simp add: second_ok_def is_cont_def)
  next
    case 5
    from decode_step_four[OF 5 assms] obtain b2 b3 b4 where "second_ok b b2"
      "c = (b - 240) * 262144 + (b2 - 128) * 4096 + (b3 - 128) * 64 + (b4 - 128)" by metis
    with 5 show ?thesis using four_byte_no_surrogate[of b b2 b3 b4]
      by (auto simp add: second_ok_def is_cont_def)
  next
    case 6
    with assms show ?thesis by (simp add: decode_step_def)
  qed
qed

lemma utf8_decode_no_surrogate:
  "c \<in> set (utf8_decode bs) \<Longrightarrow> \<not> surrogate c"
proof (induction bs arbitrary: c rule: utf8_decode.induct)
  case 1
  then show ?case by simp
next
  case (2 b bs)
  obtain r n where st: "decode_step b bs = (r, n)" by (cases "decode_step b bs")
  show ?case
  proof (cases r)
    case None
    with st 2(3) have "c \<in> set (utf8_decode (drop (n - 1) bs))" by simp
    then show ?thesis using 2(1)[OF st[symmetric] None] by blast
  next
    case (Some c')
    with st 2(3) have "c = c' \<or> c \<in> set (utf8_decode (drop (n - 1) bs))" by simp
    then show ?thesis
    proof
      assume "c = c'"
      with st Some show ?thesis using decode_step_no_surrogate by blast
    next
      assume "c \<in> set (utf8_decode (drop (n - 1) bs))"
      then show ?thesis using 2(2)[OF st[symmetric] Some] by blast
    qed
  qed
qed

section \<open>Properties of the file system\<close>

lemma file_at_Nil: "file_at t [] = (case t of File r w d \<Rightarrow> Some (r, w, d) | Dir cr es \<Rightarrow> None)"
  by (cases t) (simp_all add: file_at_def)

lemma file_at_File_Cons: "file_at (File r w d) (c # p) = None"
  by (simp add: file_at_def)

lemma file_at_Dir_Cons:
  "file_at (Dir cr es) (c # p) = (case map_of es c of None \<Rightarrow> None | Some n \<Rightarrow> file_at n p)"
  by (simp add: file_at_def split: option.splits)

lemma write_bytes_frame:
  "write_bytes t p d = Inr t' \<Longrightarrow> q \<noteq> p \<Longrightarrow> file_at t' q = file_at t q"
proof (induction t p d arbitrary: t' q rule: write_bytes.induct)
  case (1 r w old d)
  then show ?case by (cases q) (auto simp: file_at_File_Cons split: if_splits)
next
  case (2 cr es d)
  then show ?case by simp
next
  case (3 r w old c p d)
  then show ?case by simp
next
  case (4 cr es c p d)
  show ?case
  proof (cases q)
    case Nil
    with 4(2) show ?thesis
      by (auto simp: file_at_Nil split: option.splits if_splits sum.splits)
  next
    case (Cons c' q')
    show ?thesis
    proof (cases "map_of es c")
      case None
      with 4(2) have t': "t' = Dir cr (AList.update c (File True True d) es)" and p: "p = []"
        by (auto split: if_splits)
      show ?thesis
      proof (cases "c' = c")
        case True
        with Cons 4(3) p have "q' \<noteq> []" by simp
        then obtain x xs where "q' = x # xs" by (cases q') auto
        with True Cons t' None show ?thesis
          by (simp add: file_at_Dir_Cons update_conv' file_at_File_Cons)
      next
        case False
        with Cons t' show ?thesis by (simp add: file_at_Dir_Cons update_conv')
      qed
    next
      case (Some n)
      with 4(2) obtain n' where n': "write_bytes n p d = Inr n'"
        and t': "t' = Dir cr (AList.update c n' es)"
        by (auto split: sum.splits)
      show ?thesis
      proof (cases "c' = c")
        case True
        with Cons 4(3) have "q' \<noteq> p" by simp
        with 4(1)[OF Some n'] have "file_at n' q' = file_at n q'" by simp
        with True Cons t' Some show ?thesis by (simp add: file_at_Dir_Cons update_conv')
      next
        case False
        with Cons t' show ?thesis by (simp add: file_at_Dir_Cons update_conv')
      qed
    qed
  qed
qed

lemma write_bytes_stored:
  "write_bytes t p d = Inr t' \<Longrightarrow>
     file_at t' p = Some (case file_at t p of None \<Rightarrow> (True, True, d) | Some (r, w, d0) \<Rightarrow> (r, w, d))"
proof (induction t p d arbitrary: t' rule: write_bytes.induct)
  case (1 r w old d)
  then show ?case by (auto simp: file_at_Nil split: if_splits)
next
  case (2 cr es d)
  then show ?case by simp
next
  case (3 r w old c p d)
  then show ?case by simp
next
  case (4 cr es c p d)
  show ?case
  proof (cases "map_of es c")
    case None
    with 4(2) have t': "t' = Dir cr (AList.update c (File True True d) es)" and p: "p = []"
      by (auto split: if_splits)
    with None show ?thesis by (simp add: file_at_Dir_Cons update_conv' file_at_Nil)
  next
    case (Some n)
    with 4(2) obtain n' where n': "write_bytes n p d = Inr n'"
      and t': "t' = Dir cr (AList.update c n' es)"
      by (auto split: sum.splits)
    from 4(1)[OF Some n'] t' Some show ?thesis
      by (simp add: file_at_Dir_Cons update_conv')
  qed
qed

lemma write_bytes_writable:
  "file_at t p = Some (r, True, d0) \<Longrightarrow> \<exists>t'. write_bytes t p d = Inr t'"
proof (induction t p d rule: write_bytes.induct)
  case (1 r w old d)
  then show ?case by (simp add: file_at_Nil)
next
  case (2 cr es d)
  then show ?case by (simp add: file_at_Nil)
next
  case (3 r w old c p d)
  then show ?case by (simp add: file_at_File_Cons)
next
  case (4 cr es c p d)
  then show ?case
    by (cases "map_of es c") (auto simp: file_at_Dir_Cons)
qed

lemma write_bytes_unwritable:
  "file_at t p = Some (r, False, d0) \<Longrightarrow> write_bytes t p d = Inl PermissionError"
proof (induction t p d rule: write_bytes.induct)
  case (1 r w old d)
  then show ?case by (simp add: file_at_Nil)
next
  case (2 cr es d)
  then show ?case by (simp add: file_at_Nil)
next
  case (3 r w old c p d)
  then show ?case by (simp add: file_at_File_Cons)
next
  case (4 cr es c p d)
  then show ?case
    by (cases "map_of es c") (auto simp: file_at_Dir_Cons)
qed

lemma read_bytes_file_at:
  "read_bytes t p = Inr d \<longleftrightarrow> (\<exists>w. file_at t p = Some (True, w, d))"
  by (auto simp: read_bytes_def file_at_def split: sum.splits node.splits)

section \<open>Properties of \<open>with_suffix\<close>\<close>

lemma py_dot: "py ''.'' = [46]" by (simp add: py_def)
lemma py_bak: "py ''.bak'' = [46, 98, 97, 107]" by (simp add: py_def)

lemma rfind_dot_Some: "rfind_dot s = Some i \<Longrightarrow> i < length s \<and> s ! i = 46"
  by (induction s arbitrary: i) (auto split: option.splits if_splits)

lemma name_suffix_cases:
  "name_suffix name = [] \<or> (\<exists>i. 0 < i \<and> i < length name \<and> name ! i = 46 \<and> name_suffix name = drop i name)"
  using rfind_dot_Some[of name]
  by (auto simp: name_suffix_def split: option.splits)

lemma name_suffix_take:
  "name_suffix name \<noteq> [] \<Longrightarrow>
     take (length name - length (name_suffix name)) name @ name_suffix name = name"
  using name_suffix_cases[of name] by auto

lemma name_suffix_dot:
  "name_suffix name \<noteq> [] \<Longrightarrow> hd (name_suffix name) = 46"
  using name_suffix_cases[of name] by (auto simp: hd_drop_conv_nth)

lemma name_suffix_subset: "set (name_suffix name) \<subseteq> set name"
  using name_suffix_cases[of name] by (auto dest: in_set_dropD)

lemma with_suffix_bak:
  assumes "path_name p \<noteq> []" and "47 \<notin> set (path_name p)"
  shows "with_suffix p (suffix_of p @ py ''.bak'') = Inr (backup_path p)"
proof -
  let ?sfx = "suffix_of p @ py ''.bak''"
  have 1: "47 \<notin> set ?sfx"
    using assms(2) name_suffix_subset[of "path_name p"] by (auto simp: suffix_of_def py_bak)
  have 2: "startswith ?sfx (py ''.'')"
  proof (cases "suffix_of p = []")
    case True
    then show ?thesis by (simp add: startswith_def py_bak py_dot)
  next
    case False
    then obtain x xs where "suffix_of p = x # xs" by (cases "suffix_of p") auto
    with name_suffix_dot[of "path_name p"] show ?thesis
      by (simp add: startswith_def py_dot py_bak suffix_of_def)
  qed
  have 3: "?sfx \<noteq> py ''.''" by (simp add: py_bak py_dot)
  have 4: "?sfx \<noteq> []" by (simp add: py_bak)
  show ?thesis
    using 1 2 3 4 assms(1) name_suffix_take[of "path_name p"]
    by (simp add: with_suffix_def backup_path_def Let_def suffix_of_def)
qed

lemma with_suffix_bak_result:
  assumes "with_suffix p (suffix_of p @ py ''.bak'') = Inr bp"
  shows "bp = backup_path p \<and> p \<noteq> []"
proof -
  from assms have n: "path_name p \<noteq> []"
    by (auto simp: with_suffix_def split: if_splits)
  then have p: "p \<noteq> []" by (auto simp: path_name_def)
  from assms n name_suffix_take[of "path_name p"] have "bp = backup_path p"
    by (auto simp: with_suffix_def backup_path_def Let_def suffix_of_def split: if_splits)
  with p show ?thesis by simp
qed

lemma backup_path_neq: "p \<noteq> [] \<Longrightarrow> backup_path p \<noteq> p"
proof
  assume p: "p \<noteq> []" and eq: "backup_path p = p"
  from p have "p = butlast p @ [last p]" by simp
  with eq have "path_name p @ py ''.bak'' = last p"
    unfolding backup_path_def by (metis append1_eq_conv)
  with p show False by (simp add: path_name_def py_bak)
qed

section \<open>Properties of the text layer, of \<open>write_text\<close> and of \<open>backup_file\<close>\<close>

lemma encode_cp_None: "encode_cp c = None \<longleftrightarrow> surrogate c"
  by (auto simp: encode_cp_def surrogate_def)

lemma utf8_encode_None: "utf8_encode s = None \<longleftrightarrow> (\<exists>c \<in> set s. surrogate c)"
proof (induction s)
  case Nil
  show ?case by simp
next
  case (Cons c s)
  show ?case
  proof (cases "encode_cp c")
    case None
    then have "surrogate c" by (simp add: encode_cp_None)
    with None show ?thesis by auto
  next
    case (Some bs)
    then have "\<not> surrogate c" using encode_cp_None[of c] by simp
    with Some Cons show ?thesis by (auto split: option.splits)
  qed
qed

lemma encodable_iff: "encodable s \<longleftrightarrow> (\<forall>c \<in> set s. \<not> surrogate c)"
  by (simp add: encodable_def utf8_encode_None)

lemma decode_text_no_surrogate: "c \<in> set (decode_text d) \<Longrightarrow> \<not> surrogate c"
proof -
  assume "c \<in> set (decode_text d)"
  then have "c = 10 \<or> c \<in> set (utf8_decode (map of_char d))"
    using set_universal_newlines[of "utf8_decode (map of_char d)"] by (auto simp: decode_text_def)
  then show ?thesis using utf8_decode_no_surrogate by (auto simp: surrogate_def)
qed

lemma encode_text_replace:
  assumes "encodable new"
  shows "\<exists>d'. encode_text (str_replace (decode_text d) old new) = Some d'"
proof -
  have "\<forall>c \<in> set (str_replace (decode_text d) old new). \<not> surrogate c"
    using set_str_replace[of "decode_text d" old new] decode_text_no_surrogate[of _ d] assms
    by (auto simp: encodable_iff)
  then have "utf8_encode (str_replace (decode_text d) old new) \<noteq> None"
    by (simp add: utf8_encode_None)
  then show ?thesis by (auto simp: encode_text_def)
qed

lemma write_bytes_stored_writable:
  assumes "write_bytes t p d = Inr t'"
  shows "\<exists>r. file_at t' p = Some (r, True, d)"
proof (cases "file_at t p")
  case None
  with write_bytes_stored[OF assms] have "file_at t' p = Some (True, True, d)" by simp
  then show ?thesis by blast
next
  case (Some f)
  obtain r w d0 where f: "f = (r, w, d0)" by (cases f)
  have "w" 
  proof (rule ccontr)
    assume "\<not> w"
    with Some f have "write_bytes t p d = Inl PermissionError"
      using write_bytes_unwritable[of t p r d0 d] by simp
    with assms show False by simp
  qed
  with Some f write_bytes_stored[OF assms] have "file_at t' p = Some (r, True, d)" by simp
  then show ?thesis by blast
qed

lemma write_bytes_again:
  assumes "write_bytes t p d0 = Inr t0"
  shows "\<exists>t1. write_bytes t0 p d = Inr t1"
  using write_bytes_stored_writable[OF assms] write_bytes_writable by blast

lemma write_text_ok:
  assumes "write_text t p s = (Inr u, t')"
  shows "\<exists>d. encode_text s = Some d \<and> (\<exists>r. file_at t' p = Some (r, True, d))
           \<and> (\<forall>q. q \<noteq> p \<longrightarrow> file_at t' q = file_at t q)
           \<and> (\<forall>r w d0. file_at t p = Some (r, w, d0) \<longrightarrow> file_at t' p = Some (r, w, d))"
proof -
  from assms obtain t0 d where t0: "write_bytes t p [] = Inr t0"
    and d: "encode_text s = Some d" and t': "write_bytes t0 p d = Inr t'"
    by (auto simp: write_text_def split: sum.splits option.splits)
  have 1: "\<exists>r. file_at t' p = Some (r, True, d)" using t' by (rule write_bytes_stored_writable)
  have 2: "\<forall>q. q \<noteq> p \<longrightarrow> file_at t' q = file_at t q"
    using write_bytes_frame[OF t0] write_bytes_frame[OF t'] by simp
  have 3: "\<forall>r w d0. file_at t p = Some (r, w, d0) \<longrightarrow> file_at t' p = Some (r, w, d)"
    using write_bytes_stored[OF t0] write_bytes_stored[OF t'] by auto
  from d 1 2 3 show ?thesis by blast
qed

lemma write_text_succeeds:
  assumes "file_at t p = Some (r, True, d0)" and "encode_text s = Some d"
  shows "\<exists>t'. write_text t p s = (Inr (), t')"
proof -
  from assms(1) obtain t0 where t0: "write_bytes t p [] = Inr t0"
    using write_bytes_writable by blast
  then obtain t1 where "write_bytes t0 p d = Inr t1" using write_bytes_again by blast
  with t0 assms(2) show ?thesis by (simp add: write_text_def)
qed



lemma backup_file_ok:
  assumes "backup_file self w p = (Inr u, w1)"
  shows "p \<noteq> [] \<and> (\<exists>d. read_bytes (fs w) p = Inr d
           \<and> write_bytes (fs w) (backup_path p) d = Inr (fs w1))"
proof -
  from assms obtain bp d t where bp: "with_suffix p (suffix_of p @ py ''.bak'') = Inr bp"
    and d: "read_bytes (fs w) p = Inr d" and t: "write_bytes (fs w) bp d = Inr t"
    and w1: "w1 = emit DEBUG (CreatedBackup bp) (w\<lparr>fs := t\<rparr>)"
    by (auto simp: backup_file_def split: sum.splits)
  from with_suffix_bak_result[OF bp] have "bp = backup_path p" "p \<noteq> []" by simp_all
  with d t w1 show ?thesis by (simp add: emit_def)
qed

lemma backup_file_succeeds:
  assumes "path_name p \<noteq> []" "47 \<notin> set (path_name p)"
    and "read_bytes (fs w) p = Inr d" and "write_bytes (fs w) (backup_path p) d = Inr t"
  shows "backup_file self w p = (Inr (), emit DEBUG (CreatedBackup (backup_path p)) (w\<lparr>fs := t\<rparr>))"
  using assms with_suffix_bak[OF assms(1,2)] by (simp add: backup_file_def)

lemma fs_emit [simp]: "fs (emit l m w) = fs w"
  by (simp add: emit_def)

lemma logged_emit [simp]: "logged (emit l m w) = logged w @ [(l, m)]"
  by (simp add: emit_def)

section \<open>\<open>process_file\<close>, branch by branch\<close>

lemma process_file_read_error:
  "read_text (fs w) p = Inl e \<Longrightarrow>
     process_file self w p = (self, emit ERROR (ErrorProcessing p e) w)"
  by (simp add: process_file_def)

lemma process_file_unchanged:
  "read_text (fs w) p = Inr s \<Longrightarrow> str_replace s (old_ip self) (new_ip self) = s \<Longrightarrow>
     process_file self w p =
       (self\<lparr>files_processed := files_processed self + 1\<rparr>, emit DEBUG (NoChangesNeeded p) w)"
  by (simp add: process_file_def)

lemma process_file_dry_run:
  assumes "read_text (fs w) p = Inr s" and "str_replace s (old_ip self) (new_ip self) \<noteq> s"
    and "dry_run self"
  shows "process_file self w p =
     ((counted self s)\<lparr>files_processed := files_processed self + 1\<rparr>,
      emit INFO (DryRunWouldModify p (replacements self s)) w)"
  unfolding process_file_def counted_def replacements_def Let_def using assms by simp

lemma process_file_backup_error:
  assumes "read_text (fs w) p = Inr s" and "str_replace s (old_ip self) (new_ip self) \<noteq> s"
    and "\<not> dry_run self" and "backup self"
    and "backup_file (counted self s) w p = (Inl e, w1)"
  shows "process_file self w p = (counted self s, emit ERROR (ErrorProcessing p e) w1)"
  using assms unfolding process_file_def counted_def replacements_def Let_def by simp

lemma process_file_write:
  assumes "read_text (fs w) p = Inr s" and "str_replace s (old_ip self) (new_ip self) \<noteq> s"
    and "\<not> dry_run self"
    and "(if backup self then backup_file (counted self s) w p else (Inr (), w)) = (Inr u, w1)"
    and "write_text (fs w1) p (str_replace s (old_ip self) (new_ip self)) = (res, t)"
  shows "process_file self w p =
     (case res of
        Inl e \<Rightarrow> (counted self s, emit ERROR (ErrorProcessing p e) (w1\<lparr>fs := t\<rparr>))
      | Inr u' \<Rightarrow>
          ((counted self s)\<lparr>files_processed := files_processed self + 1\<rparr>,
           emit INFO (Modified p (replacements self s)) (w1\<lparr>fs := t\<rparr>)))"
  using assms unfolding process_file_def counted_def replacements_def Let_def
  by (simp split: sum.splits)

section \<open>Properties of \<open>lower\<close> and \<open>startswith\<close>\<close>

lemma ascii_lower_idem: "ascii_lower (ascii_lower s) = ascii_lower s"
  by (simp add: ascii_lower_def ascii_lower_cp_def)

lemma startswith_dot_ascii_lower:
  "startswith e (py ''.'') \<Longrightarrow> startswith (ascii_lower e) (py ''.'')"
  by (cases e) (auto simp: startswith_def py_dot ascii_lower_def ascii_lower_cp_def)

lemma python_lower_ascii_lower: "python_lower ascii_lower"
  by (simp add: python_lower_def ascii_lower_idem startswith_dot_ascii_lower)

lemma is_ascii_defaults: "is_ascii (py ''.html'')" "is_ascii (py ''.htm'')"
  by (simp_all add: is_ascii_def py_def)

lemma ascii_lower_defaults:
  "ascii_lower (py ''.html'') = py ''.html''" "ascii_lower (py ''.htm'') = py ''.htm''"
  by (simp_all add: ascii_lower_def ascii_lower_cp_def py_def)

lemma dotted_startswith:
  "startswith (if startswith e (py ''.'') then e else py ''.'' @ e) (py ''.'')"
  by (simp add: startswith_def py_dot)

section \<open>A dry run, file by file\<close>

lemma would_change_counted [simp]:
  "would_change (self\<lparr>files_processed := a\<rparr>) t p = would_change self t p"
  "would_change (counted self s) t p = would_change self t p"
  by (simp_all add: would_change_def counted_def split: sum.splits)

lemma process_file_dry:
  assumes "dry_run self"
  shows "fs (snd (process_file self w p)) = fs w
    \<and> dry_run (fst (process_file self w p))
    \<and> would_change (fst (process_file self w p)) = would_change self
    \<and> files_modified (fst (process_file self w p)) =
        files_modified self + (if would_change self (fs w) p then 1 else 0)"
proof (cases "read_text (fs w) p")
  case (Inl e)
  then have wc: "\<not> would_change self (fs w) p" by (simp add: would_change_def)
  from Inl assms wc show ?thesis
    by (simp add: process_file_read_error)
next
  case (Inr s)
  then have wc: "would_change self (fs w) p \<longleftrightarrow> str_replace s (old_ip self) (new_ip self) \<noteq> s"
    by (simp add: would_change_def)
  show ?thesis
  proof (cases "str_replace s (old_ip self) (new_ip self) = s")
    case True
    with Inr assms wc show ?thesis
      by (simp add: process_file_unchanged fun_eq_iff)
  next
    case False
    have "dry_run (counted self s)" "files_modified (counted self s) = files_modified self + 1"
      using assms by (simp_all add: counted_def)
    with False Inr assms wc show ?thesis
      by (simp add: process_file_dry_run fun_eq_iff)
  qed
qed

lemma process_files_dry:
  "dry_run self \<Longrightarrow>
     fs (snd (process_files self w ps)) = fs w
     \<and> files_modified (fst (process_files self w ps)) =
         files_modified self + int (length (filter (would_change self (fs w)) ps))"
proof (induction ps arbitrary: self w)
  case Nil
  show ?case by simp
next
  case (Cons p ps)
  obtain self' w' where st: "process_file self w p = (self', w')"
    by (cases "process_file self w p")
  from process_file_dry[OF Cons.prems, of w p] st
  have a: "fs w' = fs w" "dry_run self'" "would_change self' = would_change self"
    "files_modified self' = files_modified self + (if would_change self (fs w) p then 1 else 0)"
    by simp_all
  from Cons.IH[OF a(2), of w'] st a show ?case by simp
qed

section \<open>Logging leaves the file system alone\<close>

lemma fs_log_start [simp]: "fs (log_start self w) = fs w"
  by (simp add: log_start_def)

lemma fs_log_summary [simp]: "fs (log_summary self w) = fs w"
  by (simp add: log_summary_def Let_def)

section \<open>What the last log entry of \<open>process_file\<close> tells\<close>


lemma process_file_modified_cases:
  assumes "process_file self w p = (self', w')"
    and "last (logged w') = (INFO, Modified p k)"
  obtains s u w1 t where "read_text (fs w) p = Inr s"
      "str_replace s (old_ip self) (new_ip self) \<noteq> s" "\<not> dry_run self"
      "(if backup self then backup_file (counted self s) w p else (Inr (), w)) = (Inr u, w1)"
      "write_text (fs w1) p (str_replace s (old_ip self) (new_ip self)) = (Inr (), t)"
      "self' = (counted self s)\<lparr>files_processed := files_processed self + 1\<rparr>" "fs w' = t"
proof (cases "read_text (fs w) p")
  case (Inl e')
  with assms show ?thesis by (auto simp: process_file_read_error)
next
  case (Inr s)
  show ?thesis
  proof (cases "str_replace s (old_ip self) (new_ip self) = s")
    case True
    with Inr assms show ?thesis by (auto simp: process_file_unchanged)
  next
    case changed: False
    show ?thesis
    proof (cases "dry_run self")
      case True
      with Inr changed assms show ?thesis by (auto simp: process_file_dry_run)
    next
      case nd: False
      obtain b w1 where bk: "(if backup self then backup_file (counted self s) w p else (Inr (), w))
          = (b, w1)"
        by (cases "if backup self then backup_file (counted self s) w p else (Inr (), w)")
      show ?thesis
      proof (cases b)
        case (Inl e')
        with bk have bs: "backup self" and bf: "backup_file (counted self s) w p = (Inl e', w1)"
          by (auto split: if_splits)
        from process_file_backup_error[OF Inr changed nd bs bf] assms
        show ?thesis by auto
      next
        case (Inr u)
        obtain res t where wt:
          "write_text (fs w1) p (str_replace s (old_ip self) (new_ip self)) = (res, t)"
          by (cases "write_text (fs w1) p (str_replace s (old_ip self) (new_ip self))")
        from bk Inr have bk': "(if backup self then backup_file (counted self s) w p
            else (Inr (), w)) = (Inr u, w1)" by simp
        note pf = process_file_write[OF \<open>read_text (fs w) p = Inr s\<close> changed nd bk' wt]
        show ?thesis
        proof (cases res)
          case (Inl e')
          with pf assms show ?thesis by auto
        next
          case (Inr u')
          with pf assms have "self' = (counted self s)\<lparr>files_processed := files_processed self + 1\<rparr>"
            "fs w' = t" by auto
          with \<open>read_text (fs w) p = Inr s\<close> changed nd bk' wt Inr that show ?thesis by simp
        qed
      qed
    qed
  qed
qed

section \<open>Counters and the backup step\<close>

lemma read_text_decoded: "read_text t p = Inr s \<Longrightarrow> \<exists>d. read_bytes t p = Inr d \<and> s = decode_text d"
  by (auto simp: read_text_def split: sum.splits)

lemma files_processed_counted [simp]: "files_processed (counted self s) = files_processed self"
  by (simp add: counted_def)

lemma files_modified_counted [simp]: "files_modified (counted self s) = files_modified self + 1"
  by (simp add: counted_def)

lemma replacements_made_counted [simp]:
  "replacements_made (counted self s) = replacements_made self + replacements self s"
  by (simp add: counted_def)

lemma backup_step_keeps_file:
  assumes "(if backup self then backup_file self1 w p else (Inr (), w)) = (Inr u, w1)"
  shows "file_at (fs w1) p = file_at (fs w) p"
proof (cases "backup self")
  case True
  with assms have "backup_file self1 w p = (Inr u, w1)" by simp
  from backup_file_ok[OF this] obtain d where "p \<noteq> []"
    "write_bytes (fs w) (backup_path p) d = Inr (fs w1)" by blast
  then show ?thesis using write_bytes_frame[of "fs w" "backup_path p" d "fs w1" p] backup_path_neq[of p]
    by auto
next
  case False
  with assms show ?thesis by simp
qed

section \<open>What a validated address consists of\<close>

lemma rmatch_chars:
  "t \<in> set (rmatch r s) \<Longrightarrow> \<exists>u. s = u @ t \<and> (\<forall>c \<in> set u. is_digit c \<or> c \<in> set (lits r))"
proof (induction r s arbitrary: t rule: rmatch.induct)
  case (1 s)
  then show ?case by (cases s) (auto split: if_splits)
next
  case (2 a s)
  then show ?case by (cases s) (auto split: if_splits)
next
  case (3 r1 r2 s)
  from 3(3) obtain m where m: "m \<in> set (rmatch r1 s)" and t: "t \<in> set (rmatch r2 m)" by auto
  from 3(1)[OF m] obtain u1 where u1: "s = u1 @ m" "\<forall>c \<in> set u1. is_digit c \<or> c \<in> set (lits r1)"
    by blast
  from 3(2)[OF m t] obtain u2 where u2: "m = u2 @ t" "\<forall>c \<in> set u2. is_digit c \<or> c \<in> set (lits r2)"
    by blast
  from u1 u2 have "s = (u1 @ u2) @ t \<and> (\<forall>c \<in> set (u1 @ u2). is_digit c \<or> c \<in> set (lits (Seq r1 r2)))"
    by auto
  then show ?case by blast
next
  case (4 r s)
  then have "s = [] @ t" by simp
  then show ?case by fastforce
next
  case (5 m r s)
  then show ?case by simp
next
  case (6 n r s)
  from 6(3) consider (stop) "t = s"
    | (more) m where "m \<in> set (rmatch r s)" "t \<in> set (rmatch (Repeat 0 n r) m)" by auto
  then show ?case
  proof cases
    case stop
    then have "s = [] @ t" by simp
    then show ?thesis by fastforce
  next
    case more
    from 6(1)[OF more(1)] obtain u1 where u1: "s = u1 @ m" "\<forall>c \<in> set u1. is_digit c \<or> c \<in> set (lits r)"
      by blast
    from 6(2)[OF more(1) more(2)] obtain u2 where u2: "m = u2 @ t"
      "\<forall>c \<in> set u2. is_digit c \<or> c \<in> set (lits r)" by auto
    from u1 u2 have "s = (u1 @ u2) @ t \<and> (\<forall>c \<in> set (u1 @ u2). is_digit c \<or> c \<in> set (lits (Repeat 0 (Suc n) r)))"
      by auto
    then show ?thesis by blast
  qed
next
  case (7 m n r s)
  from 7(3) obtain k where k: "k \<in> set (rmatch r s)" "t \<in> set (rmatch (Repeat m n r) k)" by auto
  from 7(1)[OF k(1)] obtain u1 where u1: "s = u1 @ k" "\<forall>c \<in> set u1. is_digit c \<or> c \<in> set (lits r)"
    by blast
  from 7(2)[OF k(1) k(2)] obtain u2 where u2: "k = u2 @ t"
    "\<forall>c \<in> set u2. is_digit c \<or> c \<in> set (lits r)" by auto
  from u1 u2 have "s = (u1 @ u2) @ t \<and> (\<forall>c \<in> set (u1 @ u2). is_digit c \<or> c \<in> set (lits (Repeat (Suc m) (Suc n) r)))"
    by auto
  then show ?case by blast
qed

lemma ip_pattern_chars:
  assumes "re_match_anchored ip_pattern s"
  shows "\<forall>c \<in> set s. is_digit c \<or> c = 46 \<or> c = 10"
proof -
  from assms obtain t where t: "t \<in> set (rmatch ip_pattern s)" "t = [] \<or> t = [10]"
    by (auto simp: re_match_anchored_def)
  from rmatch_chars[OF t(1)] obtain u where "s = u @ t"
    "\<forall>c \<in> set u. is_digit c \<or> c \<in> set (lits ip_pattern)" by blast
  with t(2) show ?thesis by (auto simp: ip_pattern_def)
qed

lemma ip_pattern_encodable: "re_match_anchored ip_pattern s \<Longrightarrow> encodable s"
  using ip_pattern_chars[of s] by (auto simp: encodable_iff surrogate_def is_digit_def)

lemma ip_pattern_scalar: "re_match_anchored ip_pattern s \<Longrightarrow> \<forall>c \<in> set s. scalar c \<and> c \<noteq> 13"
  using ip_pattern_chars[of s] by (auto simp: scalar_def surrogate_def is_digit_def)

lemma validate_inputs_ok:
  "validate_inputs self t = Inr () \<longleftrightarrow>
     exists t (directory self) \<and> is_dir t (directory self)
     \<and> re_match_anchored ip_pattern (old_ip self) \<and> re_match_anchored ip_pattern (new_ip self)
     \<and> old_ip self \<noteq> new_ip self"
  by (simp add: validate_inputs_def)

section \<open>Decoding what was encoded\<close>

lemma decode_step_scalar:
  assumes "decode_step b bs = (Some c, n)"
  shows "c < 1114112"
proof -
  consider "b < 128" | "128 \<le> b" "b < 194" | "194 \<le> b" "b < 224" | "224 \<le> b" "b < 240"
    | "240 \<le> b" "b < 245" | "245 \<le> b" by linarith
  then show ?thesis
  proof cases
    case 1
    with assms show ?thesis by (simp add: decode_step_def)
  next
    case 2
    with assms show ?thesis by (simp add: decode_step_def)
  next
    case 3
    from decode_step_two[OF 3 assms] obtain b2 where "is_cont b2" "c = (b - 192) * 64 + (b2 - 128)"
      by metis
    with 3 show ?thesis unfolding is_cont_def by linarith
  next
    case 4
    from decode_step_three[OF 4 assms] obtain b2 b3 where "second_ok b b2" "is_cont b3"
      "c = (b - 224) * 4096 + (b2 - 128) * 64 + (b3 - 128)" by metis
    with 4 show ?thesis unfolding is_cont_def second_ok_def by linarith
  next
    case 5
    from decode_step_four[OF 5 assms] obtain b2 b3 b4 where *: "second_ok b b2" "is_cont b3"
      "is_cont b4" "c = (b - 240) * 262144 + (b2 - 128) * 4096 + (b3 - 128) * 64 + (b4 - 128)"
      by metis
    show ?thesis
    proof (cases "b = 244")
      case True
      with * have "b2 < 144" by (simp add: second_ok_def)
      with * True show ?thesis unfolding is_cont_def by linarith
    next
      case False
      with 5 have "b \<le> 243" by simp
      with * show ?thesis unfolding is_cont_def second_ok_def by linarith
    qed
  next
    case 6
    with assms show ?thesis by (simp add: decode_step_def)
  qed
qed

lemma utf8_decode_scalar: "c \<in> set (utf8_decode bs) \<Longrightarrow> scalar c"
proof (induction bs arbitrary: c rule: utf8_decode.induct)
  case 1
  then show ?case by simp
next
  case (2 b bs)
  obtain r n where st: "decode_step b bs = (r, n)" by (cases "decode_step b bs")
  show ?case
  proof (cases r)
    case None
    with st 2(3) have "c \<in> set (utf8_decode (drop (n - 1) bs))" by simp
    then show ?thesis using 2(1)[OF st[symmetric] None] by blast
  next
    case (Some c')
    with st 2(3) have "c = c' \<or> c \<in> set (utf8_decode (drop (n - 1) bs))" by simp
    then show ?thesis
    proof
      assume "c = c'"
      with st Some show ?thesis
        using decode_step_no_surrogate decode_step_scalar by (auto simp: scalar_def)
    next
      assume "c \<in> set (utf8_decode (drop (n - 1) bs))"
      then show ?thesis using 2(2)[OF st[symmetric] Some] by blast
    qed
  qed
qed

lemma split_three:
  fixes c :: nat
  obtains h m r where "c div 4096 = h" "c div 64 mod 64 = m" "c mod 64 = r"
    "m < 64" "r < 64" "c = 4096 * h + 64 * m + r"
proof -
  have 1: "c div 4096 = c div 64 div 64"
    using div_mult2_eq[of c 64 64] by simp
  have 2: "c = 64 * (c div 64) + c mod 64" by simp
  have 3: "c div 64 = 64 * (c div 64 div 64) + c div 64 mod 64" by simp
  have "c = 4096 * (c div 64 div 64) + 64 * (c div 64 mod 64) + c mod 64"
    using 2 3 by linarith
  with 1 that[of "c div 64 div 64" "c div 64 mod 64" "c mod 64"] show ?thesis by simp
qed

lemma split_four:
  fixes c :: nat
  obtains h m1 m2 r where "c div 262144 = h" "c div 4096 mod 64 = m1" "c div 64 mod 64 = m2"
    "c mod 64 = r" "m1 < 64" "m2 < 64" "r < 64" "c = 262144 * h + 4096 * m1 + 64 * m2 + r"
proof -
  obtain q m2 r where a: "c div 4096 = q" "c div 64 mod 64 = m2" "c mod 64 = r"
    "m2 < 64" "r < 64" "c = 4096 * q + 64 * m2 + r" by (rule split_three)
  have 1: "c div 262144 = q div 64"
    using div_mult2_eq[of c 4096 64] a(1) by simp
  have 2: "q = 64 * (q div 64) + q mod 64" by simp
  have "c = 262144 * (q div 64) + 4096 * (q mod 64) + 64 * m2 + r"
    using a(6) 2 by linarith
  with 1 a that[of "q div 64" "q mod 64" m2 r] show ?thesis by simp
qed

lemma decode_step_encode_cp:
  assumes "scalar c" and "encode_cp c = Some (b # bs)"
  shows "decode_step b (bs @ rest) = (Some c, Suc (length bs))"
proof -
  consider "c < 128" | "128 \<le> c" "c < 2048" | "2048 \<le> c" "c < 65536" | "65536 \<le> c"
    by linarith
  then show ?thesis
  proof cases
    case 1
    with assms show ?thesis by (auto simp: encode_cp_def decode_step_def)
  next
    case 2
    with assms have b: "b = 192 + c div 64" and bs: "bs = [128 + c mod 64]"
      by (auto simp: encode_cp_def)
    have c: "c = 64 * (c div 64) + c mod 64" by simp
    have m: "c mod 64 < 64" by simp
    from 2 c m have "2 \<le> c div 64" "c div 64 < 32" by linarith+
    then have r: "\<not> b < 128" "\<not> b < 194" "b < 224" using b by simp_all
    have v: "(b - 192) * 64 + (128 + c mod 64 - 128) = c" using b c by simp
    show ?thesis unfolding decode_step_def bs using r v m by (simp add: is_cont_def)
  next
    case 3
    with assms have ns: "\<not> surrogate c" by (simp add: scalar_def)
    with 3 assms have b: "b = 224 + c div 4096"
      and bs: "bs = [128 + c div 64 mod 64, 128 + c mod 64]"
      by (auto simp: encode_cp_def)
    obtain h m r where s: "c div 4096 = h" "c div 64 mod 64 = m" "c mod 64 = r"
      "m < 64" "r < 64" "c = 4096 * h + 64 * m + r" by (rule split_three)
    from 3 s have h: "h < 16" by linarith
    have z: "h = 0 \<Longrightarrow> 32 \<le> m" using 3 s by linarith
    have d: "h = 13 \<Longrightarrow> m < 32" using ns s unfolding surrogate_def by linarith
    have r: "\<not> b < 128" "\<not> b < 194" "\<not> b < 224" "b < 240" using b s(1) h by simp_all
    have ok: "second_ok b (128 + m)"
      using b s(1,4) z d h by (auto simp: second_ok_def is_cont_def)
    have v: "(b - 224) * 4096 + (128 + m - 128) * 64 + (128 + r - 128) = c"
      using b s(1,6) by simp
    show ?thesis unfolding decode_step_def bs s(2,3) using r ok v s(5)
      by (simp add: is_cont_def)
  next
    case 4
    with assms have ns: "\<not> surrogate c" and lt: "c < 1114112" by (simp_all add: scalar_def)
    with 4 assms have b: "b = 240 + c div 262144"
      and bs: "bs = [128 + c div 4096 mod 64, 128 + c div 64 mod 64, 128 + c mod 64]"
      by (auto simp: encode_cp_def surrogate_def)
    obtain h m1 m2 r where s: "c div 262144 = h" "c div 4096 mod 64 = m1"
      "c div 64 mod 64 = m2" "c mod 64 = r" "m1 < 64" "m2 < 64" "r < 64"
      "c = 262144 * h + 4096 * m1 + 64 * m2 + r" by (rule split_four)
    from lt s have h: "h < 5" by linarith
    have z: "h = 0 \<Longrightarrow> 16 \<le> m1" using 4 s by linarith
    have d: "h = 4 \<Longrightarrow> m1 < 16" using lt s by linarith
    have r: "\<not> b < 128" "\<not> b < 194" "\<not> b < 224" "\<not> b < 240" "b < 245"
      using b s(1) h by simp_all
    have ok: "second_ok b (128 + m1)"
      using b s(1,5) z d h by (auto simp: second_ok_def is_cont_def)
    have v: "(b - 240) * 262144 + (128 + m1 - 128) * 4096 + (128 + m2 - 128) * 64
              + (128 + r - 128) = c"
      using b s(1,8) by simp
    show ?thesis unfolding decode_step_def bs s(2,3,4) using r ok v s(6,7)
      by (simp add: is_cont_def)
  qed
qed


lemma encode_cp_bytes:
  assumes "scalar c" and "encode_cp c = Some bs"
  shows "bs \<noteq> [] \<and> (\<forall>b \<in> set bs. b < 256)"
proof -
  consider "c < 128" | "128 \<le> c" "c < 2048" | "2048 \<le> c" "c < 65536" | "65536 \<le> c"
    by linarith
  then show ?thesis
  proof cases
    case 1
    with assms show ?thesis by (auto simp: encode_cp_def)
  next
    case 2
    have "c = 64 * (c div 64) + c mod 64" "c mod 64 < 64" by simp_all
    with 2 have "c div 64 < 32" "c mod 64 < 64" by linarith+
    with 2 assms show ?thesis by (auto simp: encode_cp_def)
  next
    case 3
    obtain h m r where s: "c div 4096 = h" "c div 64 mod 64 = m" "c mod 64 = r"
      "m < 64" "r < 64" "c = 4096 * h + 64 * m + r" by (rule split_three)
    from 3 s have "h < 16" by linarith
    with 3 assms s show ?thesis by (auto simp: encode_cp_def scalar_def)
  next
    case 4
    obtain h m1 m2 r where s: "c div 262144 = h" "c div 4096 mod 64 = m1"
      "c div 64 mod 64 = m2" "c mod 64 = r" "m1 < 64" "m2 < 64" "r < 64"
      "c = 262144 * h + 4096 * m1 + 64 * m2 + r" by (rule split_four)
    from assms(1) s have "h < 5" unfolding scalar_def by linarith
    with 4 assms s show ?thesis by (auto simp: encode_cp_def scalar_def surrogate_def)
  qed
qed

lemma utf8_decode_encode:
  "\<forall>c \<in> set s. scalar c \<Longrightarrow> utf8_encode s = Some bs \<Longrightarrow>
     utf8_decode bs = s \<and> (\<forall>b \<in> set bs. b < 256)"
proof (induction s arbitrary: bs)
  case Nil
  then show ?case by simp
next
  case (Cons c s)
  from Cons.prems(2) obtain cb r where cb: "encode_cp c = Some cb"
    and r: "utf8_encode s = Some r" and bs: "bs = cb @ r"
    by (auto split: option.splits)
  from Cons.prems(1) have sc: "scalar c" by simp
  from encode_cp_bytes[OF sc cb] obtain b cb' where cb': "cb = b # cb'"
    and lt: "\<forall>x \<in> set cb. x < 256" by (cases cb) auto
  from Cons.IH[OF _ r] Cons.prems(1) have ih: "utf8_decode r = s" "\<forall>b \<in> set r. b < 256"
    by simp_all
  have "decode_step b (cb' @ r) = (Some c, Suc (length cb'))"
    using decode_step_encode_cp[OF sc] cb cb' by simp
  then have "utf8_decode (b # cb' @ r) = c # utf8_decode r" by simp
  with ih bs cb' lt show ?case by auto
qed

lemma universal_newlines_id: "13 \<notin> set s \<Longrightarrow> universal_newlines s = s"
  by (induction s rule: universal_newlines.induct) auto

lemma universal_newlines_no_cr: "13 \<notin> set (universal_newlines s)"
  by (induction s rule: universal_newlines.induct) auto

lemma decode_text_scalar: "c \<in> set (decode_text d) \<Longrightarrow> scalar c \<and> c \<noteq> 13"
proof -
  assume c: "c \<in> set (decode_text d)"
  then have "c = 10 \<or> c \<in> set (utf8_decode (map of_char d))"
    using set_universal_newlines[of "utf8_decode (map of_char d)"] by (auto simp: decode_text_def)
  then have "scalar c" using utf8_decode_scalar by (auto simp: scalar_def surrogate_def)
  moreover from c have "c \<noteq> 13" using universal_newlines_no_cr by (auto simp: decode_text_def)
  ultimately show ?thesis by simp
qed

lemma decode_encode_text:
  assumes "\<forall>c \<in> set s. scalar c \<and> c \<noteq> 13" and "encode_text s = Some d"
  shows "decode_text d = s"
proof -
  from assms(2) obtain bs where bs: "utf8_encode s = Some bs" and d: "d = map char_of bs"
    by (auto simp: encode_text_def)
  from utf8_decode_encode[OF _ bs] assms(1) have dec: "utf8_decode bs = s"
    and lt: "\<forall>b \<in> set bs. b < 256" by simp_all
  have "map of_char d = bs" unfolding d using lt
    by (simp add: map_idI)
  moreover from assms(1) have "13 \<notin> set s" by auto
  then have "universal_newlines s = s" by (rule universal_newlines_id)
  ultimately show ?thesis using dec by (simp add: decode_text_def)
qed

lemma replaced_text_roundtrip:
  assumes "\<forall>c \<in> set new. scalar c \<and> c \<noteq> 13"
    and "encode_text (str_replace (decode_text d) old new) = Some d'"
  shows "decode_text d' = str_replace (decode_text d) old new"
proof -
  have "\<forall>c \<in> set (str_replace (decode_text d) old new). scalar c \<and> c \<noteq> 13"
    using set_str_replace[of "decode_text d" old new] decode_text_scalar[of _ d] assms(1)
    by blast
  then show ?thesis using assms(2) by (rule decode_encode_text)
qed

section \<open>The text of a file after it was modified\<close>

lemma process_file_files_modified:
  "files_modified (fst (process_file self w p)) =
     files_modified self + (if would_change self (fs w) p then 1 else 0)"
  unfolding process_file_def would_change_def Let_def
  by (simp split: sum.splits prod.splits)

lemma would_change_iff:
  assumes "read_text t p = Inr s" and "old_ip self \<noteq> new_ip self"
  shows "would_change self t p \<longleftrightarrow> 0 < str_count s (old_ip self)"
  using assms str_replace_changes_iff[of "old_ip self" "new_ip self" s]
  by (simp add: would_change_def)

lemma would_change_processed [simp]:
  "would_change ((counted self s)\<lparr>files_processed := a\<rparr>) t p = would_change self t p"
  by (simp add: would_change_def counted_def split: sum.splits)

lemma modified_file_text:
  assumes new: "\<forall>c \<in> set (new_ip self). scalar c \<and> c \<noteq> 13"
    and rd: "read_text (fs w) p = Inr s"
    and pf: "process_file self w p = (self1, w1)"
    and lg: "last (logged w1) = (INFO, Modified p k)"
  shows "read_text (fs w1) p = Inr (str_replace s (old_ip self) (new_ip self))
    \<and> would_change self1 = would_change self"
  using pf lg
proof (cases rule: process_file_modified_cases)
  case (1 s' u w0 t)
  from 1(1) rd have s: "s' = s" by simp
  from read_text_decoded[OF rd] obtain d0 where d0: "read_bytes (fs w) p = Inr d0"
    "s = decode_text d0" by blast
  then obtain wr where f: "file_at (fs w) p = Some (True, wr, d0)"
    by (auto simp: read_bytes_file_at)
  have "file_at (fs w0) p = file_at (fs w) p" using 1(4) by (rule backup_step_keeps_file)
  with f have f0: "file_at (fs w0) p = Some (True, wr, d0)" by simp
  from write_text_ok[OF 1(5)] obtain d' where d':
    "encode_text (str_replace s' (old_ip self) (new_ip self)) = Some d'"
    "\<forall>r w d0. file_at (fs w0) p = Some (r, w, d0) \<longrightarrow> file_at t p = Some (r, w, d')"
    by blast
  with f0 have "file_at t p = Some (True, wr, d')" by blast
  then have "read_bytes t p = Inr d'" by (auto simp: read_bytes_file_at)
  moreover have "decode_text d' = str_replace s (old_ip self) (new_ip self)"
    using replaced_text_roundtrip[OF new, of d0 "old_ip self" d'] d'(1) s d0(2) by simp
  ultimately have "read_text t p = Inr (str_replace s (old_ip self) (new_ip self))"
    by (simp add: read_text_def)
  moreover have "would_change self1 = would_change self"
    unfolding 1(6) by (simp add: fun_eq_iff)
  ultimately show ?thesis using 1(7) by simp
qed

section \<open>A run over a single file\<close>

lemma run_single:
  assumes "validate_inputs self (fs w) = Inr ()"
    and "find_target_files lower self (fs w) = [p]"
    and "process_file self (emit INFO (FoundFiles 1) (log_start self w)) p = (self', w')"
  shows "run lower self w = (Returned, self', log_summary self' w')"
  using assms by (simp add: run_def Let_def)

section \<open>The strings the address pattern accepts\<close>

lemma rmatch_Digit: "t \<in> set (rmatch Digit s) \<longleftrightarrow> (\<exists>c. s = c # t \<and> is_digit c)"
  by (cases s) auto

lemma rmatch_Lit: "t \<in> set (rmatch (Lit a) s) \<longleftrightarrow> s = a # t"
  by (cases s) auto

lemma rmatch_digits_upto:
  "t \<in> set (rmatch (Repeat 0 n Digit) s)
     \<longleftrightarrow> (\<exists>g. s = g @ t \<and> length g \<le> n \<and> list_all is_digit g)"
proof (induction n arbitrary: s)
  case 0
  show ?case by auto
next
  case (Suc n)
  show ?case
  proof
    assume "t \<in> set (rmatch (Repeat 0 (Suc n) Digit) s)"
    then consider "t = s" | c s' where "s = c # s'" "is_digit c"
        "t \<in> set (rmatch (Repeat 0 n Digit) s')"
      by (auto simp: rmatch_Digit)
    then show "\<exists>g. s = g @ t \<and> length g \<le> Suc n \<and> list_all is_digit g"
    proof cases
      case 1
      then have "s = [] @ t \<and> length ([]::nat list) \<le> Suc n \<and> list_all is_digit []" by simp
      then show ?thesis by blast
    next
      case 2
      with Suc obtain g where "s' = g @ t" "length g \<le> n" "list_all is_digit g" by blast
      with 2 have "s = (c # g) @ t \<and> length (c # g) \<le> Suc n \<and> list_all is_digit (c # g)"
        by simp
      then show ?thesis by blast
    qed
  next
    assume "\<exists>g. s = g @ t \<and> length g \<le> Suc n \<and> list_all is_digit g"
    then obtain g where g: "s = g @ t" "length g \<le> Suc n" "list_all is_digit g" by blast
    show "t \<in> set (rmatch (Repeat 0 (Suc n) Digit) s)"
    proof (cases g)
      case Nil
      with g show ?thesis by simp
    next
      case (Cons c g')
      with g have "g' @ t \<in> set (rmatch Digit s)" "t \<in> set (rmatch (Repeat 0 n Digit) (g' @ t))"
        using Suc[of "g' @ t"] by (auto simp: rmatch_Digit)
      then show ?thesis by auto
    qed
  qed
qed

lemma rmatch_Repeat_0_0: "rmatch (Repeat 0 0 r) = (\<lambda>t. [t])"
  by (rule ext) simp

lemma rmatch_Repeat_Suc:
  "rmatch (Repeat (Suc m) (Suc n) r) =
     (\<lambda>s. concat (map (rmatch (Repeat m n r)) (rmatch r s)))"
  by (rule ext) simp

lemma rmatch_Repeat_1_3:
  "rmatch (Repeat 1 3 r) s = concat (map (\<lambda>t. rmatch (Repeat 0 2 r) t) (rmatch r s))"
  using rmatch.simps(7)[of 0 2 r s] by simp

lemma rmatch_Repeat_3_3:
  "rmatch (Repeat 3 3 r) s =
     concat (map (\<lambda>t. concat (map (\<lambda>u. rmatch r u) (rmatch r t))) (rmatch r s))"
  by (simp add: numeral_3_eq_3 rmatch_Repeat_Suc rmatch_Repeat_0_0)

lemma rmatch_group:
  "t \<in> set (rmatch (Repeat 1 3 Digit) s) \<longleftrightarrow> (\<exists>g. s = g @ t \<and> digit_group g)"
proof
  assume "t \<in> set (rmatch (Repeat 1 3 Digit) s)"
  then obtain c s' where c: "s = c # s'" "is_digit c" "t \<in> set (rmatch (Repeat 0 2 Digit) s')"
    unfolding rmatch_Repeat_1_3 by (auto simp: rmatch_Digit)
  then obtain g where "s' = g @ t" "length g \<le> 2" "list_all is_digit g"
    using rmatch_digits_upto by blast
  with c have "s = (c # g) @ t \<and> digit_group (c # g)" by (simp add: digit_group_def)
  then show "\<exists>g. s = g @ t \<and> digit_group g" by blast
next
  assume "\<exists>g. s = g @ t \<and> digit_group g"
  then obtain g where g: "s = g @ t" "digit_group g" by blast
  then obtain c g' where cg: "g = c # g'" by (cases g) (auto simp: digit_group_def)
  with g have "is_digit c" "length g' \<le> 2" "list_all is_digit g'"
    by (auto simp: digit_group_def)
  then have "g' @ t \<in> set (rmatch Digit s)" "t \<in> set (rmatch (Repeat 0 2 Digit) (g' @ t))"
    using g cg rmatch_digits_upto[of t 2 "g' @ t"] by (auto simp: rmatch_Digit)
  then show "t \<in> set (rmatch (Repeat 1 3 Digit) s)" unfolding rmatch_Repeat_1_3 by auto
qed

lemma rmatch_group_dot:
  "t \<in> set (rmatch (Seq (Repeat 1 3 Digit) (Lit 46)) s)
     \<longleftrightarrow> (\<exists>g. s = g @ 46 # t \<and> digit_group g)"
  by (auto simp: rmatch_group rmatch_Lit simp del: One_nat_def)

lemma rmatch_three_groups:
  "t \<in> set (rmatch (Repeat 3 3 (Seq (Repeat 1 3 Digit) (Lit 46))) s)
     \<longleftrightarrow> (\<exists>a b c. s = a @ 46 # b @ 46 # c @ 46 # t
           \<and> digit_group a \<and> digit_group b \<and> digit_group c)"
proof -
  let ?G = "Seq (Repeat 1 3 Digit) (Lit 46)"
  have "t \<in> set (rmatch (Repeat 3 3 ?G) s)
      \<longleftrightarrow> (\<exists>x \<in> set (rmatch ?G s). \<exists>y \<in> set (rmatch ?G x). t \<in> set (rmatch ?G y))"
    unfolding rmatch_Repeat_3_3 by (simp del: One_nat_def rmatch.simps)
  also have "\<dots> \<longleftrightarrow> (\<exists>a b c. s = a @ 46 # b @ 46 # c @ 46 # t
           \<and> digit_group a \<and> digit_group b \<and> digit_group c)"
    unfolding Bex_def rmatch_group_dot by fastforce
  finally show ?thesis .
qed

lemma rmatch_ip_pattern:
  "t \<in> set (rmatch ip_pattern s)
     \<longleftrightarrow> (\<exists>a b c d. s = a @ 46 # b @ 46 # c @ 46 # d @ t
           \<and> digit_group a \<and> digit_group b \<and> digit_group c \<and> digit_group d)"
proof -
  have "t \<in> set (rmatch ip_pattern s)
      \<longleftrightarrow> (\<exists>x \<in> set (rmatch (Repeat 3 3 (Seq (Repeat 1 3 Digit) (Lit 46))) s).
            t \<in> set (rmatch (Repeat 1 3 Digit) x))"
    by (simp add: ip_pattern_def del: One_nat_def)
  also have "\<dots> \<longleftrightarrow> (\<exists>a b c d. s = a @ 46 # b @ 46 # c @ 46 # d @ t
           \<and> digit_group a \<and> digit_group b \<and> digit_group c \<and> digit_group d)"
    unfolding Bex_def rmatch_three_groups rmatch_group by fastforce
  finally show ?thesis .
qed


lemma split_dot_nonempty: "split_dot s \<noteq> []"
  by (induction s) (auto split: list.splits)

lemma split_dot_group: "46 \<notin> set g \<Longrightarrow> split_dot (g @ 46 # rest) = g # split_dot rest"
  using split_dot_nonempty[of rest] by (induction g) (auto split: list.splits)

lemma split_dot_last: "46 \<notin> set g \<Longrightarrow> split_dot g = [g]"
  by (induction g) auto

lemma split_dot_Cons:
  "split_dot s = g # gs \<Longrightarrow>
     (gs = [] \<and> s = g) \<or> (\<exists>rest. s = g @ 46 # rest \<and> split_dot rest = gs)"
proof (induction s arbitrary: g gs)
  case Nil
  then show ?case by simp
next
  case (Cons c cs)
  show ?case
  proof (cases "c = 46")
    case True
    with Cons.prems show ?thesis by auto
  next
    case False
    obtain g' gs' where s: "split_dot cs = g' # gs'"
      using split_dot_nonempty[of cs] by (cases "split_dot cs") auto
    with False Cons.prems have g: "g = c # g'" "gs = gs'" by simp_all
    from Cons.IH[OF s] g show ?thesis by auto
  qed
qed

lemma digit_group_no_dot: "digit_group g \<Longrightarrow> 46 \<notin> set g"
  by (auto simp: digit_group_def list_all_iff is_digit_def)

lemma spec_ip_shape_iff:
  "spec_ip_shape s \<longleftrightarrow>
     (\<exists>a b c d. s = a @ 46 # b @ 46 # c @ 46 # d
        \<and> digit_group a \<and> digit_group b \<and> digit_group c \<and> digit_group d)"
proof
  assume "spec_ip_shape s"
  then obtain a b c d where sp: "split_dot s = [a, b, c, d]"
    and g: "digit_group a" "digit_group b" "digit_group c" "digit_group d"
    by (auto simp: spec_ip_shape_def length_Suc_conv numeral_eq_Suc)
  from split_dot_Cons[OF sp] obtain r1 where r1: "s = a @ 46 # r1" "split_dot r1 = [b, c, d]"
    by auto
  from split_dot_Cons[OF r1(2)] obtain r2 where r2: "r1 = b @ 46 # r2" "split_dot r2 = [c, d]"
    by auto
  from split_dot_Cons[OF r2(2)] obtain r3 where r3: "r2 = c @ 46 # r3" "split_dot r3 = [d]"
    by auto
  from split_dot_Cons[OF r3(2)] have "r3 = d" using split_dot_nonempty by auto
  with r1 r2 r3 g show "\<exists>a b c d. s = a @ 46 # b @ 46 # c @ 46 # d
        \<and> digit_group a \<and> digit_group b \<and> digit_group c \<and> digit_group d" by auto
next
  assume "\<exists>a b c d. s = a @ 46 # b @ 46 # c @ 46 # d
        \<and> digit_group a \<and> digit_group b \<and> digit_group c \<and> digit_group d"
  then obtain a b c d where s: "s = a @ 46 # b @ 46 # c @ 46 # d"
    and g: "digit_group a" "digit_group b" "digit_group c" "digit_group d" by blast
  have "split_dot s = [a, b, c, d]"
    unfolding s using g
    by (simp add: split_dot_group split_dot_last digit_group_no_dot)
  with g show "spec_ip_shape s" by (simp add: spec_ip_shape_def)
qed

lemma ip_pattern_language:
  "re_match_anchored ip_pattern s \<longleftrightarrow>
     spec_ip_shape s \<or> (\<exists>u. s = u @ [10] \<and> spec_ip_shape u)"
proof -
  have m: "re_match_anchored ip_pattern s \<longleftrightarrow>
      [] \<in> set (rmatch ip_pattern s) \<or> [10] \<in> set (rmatch ip_pattern s)"
    by (auto simp: re_match_anchored_def)
  have A: "[] \<in> set (rmatch ip_pattern s) \<longleftrightarrow> spec_ip_shape s"
    unfolding rmatch_ip_pattern spec_ip_shape_iff by simp
  have B: "[10] \<in> set (rmatch ip_pattern s) \<longleftrightarrow> (\<exists>u. s = u @ [10] \<and> spec_ip_shape u)"
  proof
    assume "[10] \<in> set (rmatch ip_pattern s)"
    then obtain a b c d where s: "s = a @ 46 # b @ 46 # c @ 46 # d @ [10]"
      and g: "digit_group a" "digit_group b" "digit_group c" "digit_group d"
      unfolding rmatch_ip_pattern by blast
    from g have "spec_ip_shape (a @ 46 # b @ 46 # c @ 46 # d)"
      unfolding spec_ip_shape_iff by blast
    moreover from s have "s = (a @ 46 # b @ 46 # c @ 46 # d) @ [10]" by simp
    ultimately show "\<exists>u. s = u @ [10] \<and> spec_ip_shape u" by blast
  next
    assume "\<exists>u. s = u @ [10] \<and> spec_ip_shape u"
    then obtain u a b c d where "s = u @ [10]" "u = a @ 46 # b @ 46 # c @ 46 # d"
      and g: "digit_group a" "digit_group b" "digit_group c" "digit_group d"
      unfolding spec_ip_shape_iff by blast
    then have "s = a @ 46 # b @ 46 # c @ 46 # d @ [10]" by simp
    with g show "[10] \<in> set (rmatch ip_pattern s)" unfolding rmatch_ip_pattern by blast
  qed
  from m A B show ?thesis by simp
qed

lemma validate_inputs_accepts_iff:
  "validate_inputs self t = Inr () \<longleftrightarrow>
     exists t (directory self) \<and> is_dir t (directory self)
     \<and> (spec_ip_shape (old_ip self) \<or> (\<exists>u. old_ip self = u @ [10] \<and> spec_ip_shape u))
     \<and> (spec_ip_shape (new_ip self) \<or> (\<exists>u. new_ip self = u @ [10] \<and> spec_ip_shape u))
     \<and> old_ip self \<noteq> new_ip self"
  by (simp add: validate_inputs_ok ip_pattern_language)

section \<open>The claims\<close>



text \<open>
  C9. Whatever list of extensions the constructor is given, the list it stores is not
  empty and each of its entries is lowercase (\<open>lower\<close> leaves it as it is) and starts with
  a dot; with no list, or with the empty list, it stores the default \<open>['.html', '.htm']\<close>.
  \<open>lower\<close> is any function with the properties of \<open>str.lower\<close> that \<open>python_lower\<close>
  names.
\<close>

theorem init_extensions_invariant:
  assumes "python_lower lower"
  shows "extensions (init lower dir old new exts bk dry) \<noteq> []
   \<and> (\<forall>e \<in> set (extensions (init lower dir old new exts bk dry)).
         lower e = e \<and> startswith e (py ''.''))
   \<and> (exts = None \<or> exts = Some [] \<longrightarrow>
         extensions (init lower dir old new exts bk dry) = [py ''.html'', py ''.htm''])"
proof -
  let ?e0 = "case exts of None \<Rightarrow> default_extensions
             | Some es \<Rightarrow> if es = [] then default_extensions else es"
  let ?dot = "\<lambda>ext. if startswith ext (py ''.'') then ext else py ''.'' @ ext"
  from assms have asc: "\<And>s. is_ascii s \<Longrightarrow> lower s = ascii_lower s"
    and idem: "\<And>s. lower (lower s) = lower s"
    and dot: "\<And>s. startswith s (py ''.'') \<Longrightarrow> startswith (lower s) (py ''.'')"
    by (simp_all add: python_lower_def)
  have ext: "extensions (init lower dir old new exts bk dry) = map lower (map ?dot ?e0)"
    by (simp add: init_def Let_def)
  have ne: "?e0 \<noteq> []"
    by (simp add: default_extensions_def split: option.splits)
  have 1: "extensions (init lower dir old new exts bk dry) \<noteq> []"
    unfolding ext using ne by simp
  have 2: "\<forall>e \<in> set (extensions (init lower dir old new exts bk dry)).
         lower e = e \<and> startswith e (py ''.'')"
  proof
    fix e assume "e \<in> set (extensions (init lower dir old new exts bk dry))"
    then obtain x where e: "e = lower (?dot x)" unfolding ext by auto
    have a: "lower e = e" unfolding e by (rule idem)
    have c: "startswith e (py ''.'')"
      unfolding e using dotted_startswith by (rule dot)
    from a c show "lower e = e \<and> startswith e (py ''.'')" by blast
  qed
  have "map ?dot default_extensions = [py ''.html'', py ''.htm'']"
    by (simp add: default_extensions_def startswith_def py_def)
  then have d: "map lower (map ?dot default_extensions) = [py ''.html'', py ''.htm'']"
    using asc is_ascii_defaults ascii_lower_defaults by simp
  have 3: "exts = None \<or> exts = Some [] \<longrightarrow>
         extensions (init lower dir old new exts bk dry) = [py ''.html'', py ''.htm'']"
    unfolding ext using d by auto
  from 1 2 3 show ?thesis by blast
qed

text \<open>
  With \<open>ascii_lower\<close>, which has the three properties: the empty list falls back to the
  default, whose two entries are lowercase and start with a dot; \<open>['HTML', '.Txt']\<close> is
  stored as \<open>['.html', '.txt']\<close>.
\<close>

theorem init_extensions_invariant_witness:
  "python_lower ascii_lower
   \<and> extensions (init ascii_lower [py ''site''] (py ''10.0.0.1'') (py ''10.0.0.2'') (Some [])
         True False) = [py ''.html'', py ''.htm'']
   \<and> ascii_lower (py ''.html'') = py ''.html'' \<and> startswith (py ''.html'') (py ''.'')
   \<and> ascii_lower (py ''.htm'') = py ''.htm'' \<and> startswith (py ''.htm'') (py ''.'')
   \<and> extensions (init ascii_lower [py ''site''] (py ''10.0.0.1'') (py ''10.0.0.2'')
         (Some [py ''HTML'', py ''.Txt'']) True False) = [py ''.html'', py ''.txt'']"
proof -
  let ?self = "init ascii_lower [py ''site''] (py ''10.0.0.1'') (py ''10.0.0.2'') (Some [])
                 True False"
  note inv = init_extensions_invariant
    [OF python_lower_ascii_lower, of "[py ''site'']" "py ''10.0.0.1''" "py ''10.0.0.2''"
      "Some []" True False]
  from inv have e: "extensions ?self = [py ''.html'', py ''.htm'']" by simp
  from inv have "\<forall>x \<in> set (extensions ?self). ascii_lower x = x \<and> startswith x (py ''.'')"
    by blast
  then have l: "ascii_lower (py ''.html'') = py ''.html'' \<and> startswith (py ''.html'') (py ''.'')
      \<and> ascii_lower (py ''.htm'') = py ''.htm'' \<and> startswith (py ''.htm'') (py ''.'')"
    unfolding e by simp
  have a: "extensions (init ascii_lower [py ''site''] (py ''10.0.0.1'') (py ''10.0.0.2'')
         (Some [py ''HTML'', py ''.Txt'']) True False) = [py ''.html'', py ''.txt'']"
    by code_simp
  from python_lower_ascii_lower e l a show ?thesis by simp
qed

text \<open>
  C4. In a dry run nothing is written: after the run the file system is the one before
  it, so every file has its original bytes and no \<open>.bak\<close> file has appeared. The run still
  counts in \<open>files_modified\<close> every discovered file whose text the replacement would
  change.
\<close>

theorem dry_run_writes_nothing:
  assumes "dry_run self"
  shows "fs (snd (snd (run lower self w))) = fs w
    \<and> (validate_inputs self (fs w) = Inr () \<longrightarrow>
         files_modified (fst (snd (run lower self w))) =
           files_modified self
           + int (length (filter (would_change self (fs w)) (find_target_files lower self (fs w)))))"
proof (cases "validate_inputs self (fs w)")
  case (Inl e)
  then show ?thesis by (simp add: run_def)
next
  case (Inr u)
  let ?w1 = "log_start self w"
  let ?ts = "find_target_files lower self (fs w)"
  have f1: "fs ?w1 = fs w" by (simp add: log_start_def)
  show ?thesis
  proof (cases "?ts = []")
    case True
    with Inr f1 show ?thesis by (simp add: run_def Let_def)
  next
    case False
    let ?w2 = "emit INFO (FoundFiles (length ?ts)) ?w1"
    obtain self' w3 where st: "process_files self ?w2 ?ts = (self', w3)"
      by (cases "process_files self ?w2 ?ts")
    have r: "run lower self w = (Returned, self', log_summary self' w3)"
      using Inr False f1 st by (simp add: run_def Let_def)
    have "fs (log_summary self' w3) = fs w3" by (simp add: log_summary_def Let_def)
    with process_files_dry[OF assms, of ?w2 ?ts] st f1 r show ?thesis by simp
  qed
qed

text \<open>
  A dry run over \<open>a.html\<close> and \<open>b.txt\<close>: the tree is unchanged, there is no
  \<open>a.html.bak\<close>, and one file is reported as modified.
\<close>

theorem dry_run_writes_nothing_witness:
  "dry_run (updater ''10.0.0.1'' ''10.0.0.2'' True True)
   \<and> validate_inputs (updater ''10.0.0.1'' ''10.0.0.2'' True True)
        (two_files ''Server at 10.0.0.1 ready'') = Inr ()
   \<and> fs (snd (snd (run ascii_lower (updater ''10.0.0.1'' ''10.0.0.2'' True True)
        (world_of (two_files ''Server at 10.0.0.1 ready''))))) = two_files ''Server at 10.0.0.1 ready''
   \<and> file_at (two_files ''Server at 10.0.0.1 ready'') (backup_path a_html) = None
   \<and> files_modified (fst (snd (run ascii_lower (updater ''10.0.0.1'' ''10.0.0.2'' True True)
        (world_of (two_files ''Server at 10.0.0.1 ready''))))) = 1"
proof -
  let ?self = "updater ''10.0.0.1'' ''10.0.0.2'' True True"
  let ?t = "two_files ''Server at 10.0.0.1 ready''"
  have d: "dry_run ?self" by (simp add: updater_def init_def Let_def)
  have v: "validate_inputs ?self ?t = Inr ()" by code_simp
  have n: "files_modified ?self
           + int (length (filter (would_change ?self ?t) (find_target_files ascii_lower ?self ?t))) = 1"
    by code_simp
  have b: "file_at ?t (backup_path a_html) = None" by code_simp
  have f: "fs (world_of ?t) = ?t" by (simp add: world_of_def)
  from dry_run_writes_nothing[OF d, where w = "world_of ?t" and lower = ascii_lower]
    d v n b f show ?thesis by simp
qed

text \<open>
  C6. A run whose configuration is valid and whose directory holds no file with a
  configured extension returns normally (exit status 0) after a warning, with the three
  counters at 0 and the file system untouched.
\<close>

theorem no_matching_files_run:
  assumes "validate_inputs (init lower dir old new exts bk dry) (fs w) = Inr ()"
    and "find_target_files lower (init lower dir old new exts bk dry) (fs w) = []"
  shows "fst (run lower (init lower dir old new exts bk dry) w) = Returned
    \<and> exit_status (fst (run lower (init lower dir old new exts bk dry) w)) = 0
    \<and> last (logged (snd (snd (run lower (init lower dir old new exts bk dry) w))))
        = (WARNING, NoFilesFound (extensions (init lower dir old new exts bk dry)))
    \<and> files_processed (fst (snd (run lower (init lower dir old new exts bk dry) w))) = 0
    \<and> files_modified (fst (snd (run lower (init lower dir old new exts bk dry) w))) = 0
    \<and> replacements_made (fst (snd (run lower (init lower dir old new exts bk dry) w))) = 0
    \<and> fs (snd (snd (run lower (init lower dir old new exts bk dry) w))) = fs w"
proof -
  let ?self = "init lower dir old new exts bk dry"
  have r: "run lower ?self w = (Returned, ?self, emit WARNING (NoFilesFound (extensions ?self))
                                           (log_start ?self w))"
    using assms by (simp add: run_def Let_def)
  have z: "files_processed ?self = 0" "files_modified ?self = 0" "replacements_made ?self = 0"
    by (simp_all add: init_def Let_def)
  show ?thesis unfolding r using z by simp
qed

text \<open>
  The directory holds \<open>a.html\<close> and \<open>b.txt\<close> and the only extension asked for is
  \<open>php\<close>.
\<close>

theorem no_matching_files_run_witness:
  "validate_inputs
      (init ascii_lower [py ''site''] (py ''10.0.0.1'') (py ''10.0.0.2'') (Some [py ''php'']) True False)
      (fs (world_of (two_files ''Server at 10.0.0.1 ready''))) = Inr ()
   \<and> find_target_files ascii_lower
      (init ascii_lower [py ''site''] (py ''10.0.0.1'') (py ''10.0.0.2'') (Some [py ''php'']) True False)
      (fs (world_of (two_files ''Server at 10.0.0.1 ready''))) = []
   \<and> exit_status (fst (run ascii_lower
        (init ascii_lower [py ''site''] (py ''10.0.0.1'') (py ''10.0.0.2'') (Some [py ''php'']) True False)
        (world_of (two_files ''Server at 10.0.0.1 ready'')))) = 0
   \<and> files_processed (fst (snd (run ascii_lower
        (init ascii_lower [py ''site''] (py ''10.0.0.1'') (py ''10.0.0.2'') (Some [py ''php'']) True False)
        (world_of (two_files ''Server at 10.0.0.1 ready''))))) = 0
   \<and> fs (snd (snd (run ascii_lower
        (init ascii_lower [py ''site''] (py ''10.0.0.1'') (py ''10.0.0.2'') (Some [py ''php'']) True False)
        (world_of (two_files ''Server at 10.0.0.1 ready'')))))
      = two_files ''Server at 10.0.0.1 ready''"
proof -
  let ?self =
    "init ascii_lower [py ''site''] (py ''10.0.0.1'') (py ''10.0.0.2'') (Some [py ''php'']) True False"
  let ?w = "world_of (two_files ''Server at 10.0.0.1 ready'')"
  have v: "validate_inputs ?self (fs ?w) = Inr ()" by code_simp
  have t: "find_target_files ascii_lower ?self (fs ?w) = []" by code_simp
  have f: "fs ?w = two_files ''Server at 10.0.0.1 ready''" by (simp add: world_of_def)
  from no_matching_files_run[OF v t] v t f show ?thesis by simp
qed

text \<open>
  C2, as stated: for a file on which a per-file error occurs, \<open>files_processed\<close> is still
  incremented. It is not: the increment is the last statement inside the \<open>try\<close>, and an
  exception skips it. Here the only discovered file cannot be read; the run returns
  normally and \<open>files_processed\<close> is 0.
\<close>

theorem errored_file_counted_counterexample:
  "find_target_files ascii_lower (updater ''10.0.0.1'' ''10.0.0.2'' True False)
      (one_file True False True ''Server at 10.0.0.1 ready'') = [a_html]
   \<and> read_text (one_file True False True ''Server at 10.0.0.1 ready'') a_html
       = Inl PermissionError
   \<and> fst (run ascii_lower (updater ''10.0.0.1'' ''10.0.0.2'' True False)
          (world_of (one_file True False True ''Server at 10.0.0.1 ready''))) = Returned
   \<and> files_processed (fst (snd (run ascii_lower (updater ''10.0.0.1'' ''10.0.0.2'' True False)
          (world_of (one_file True False True ''Server at 10.0.0.1 ready''))))) = 0"
  by code_simp

text \<open>
  C2, amended. Whatever happens on a file, the loop goes on with the next one; and
  \<open>files_processed\<close> advances by one exactly when the handler of \<open>process_file\<close> was not
  entered, that is, when the last message logged for the file is not the error message.
  A read failure, a failure of the backup and a failure of the write all end in the
  handler (\<open>process_file_read_error\<close>, \<open>process_file_backup_error\<close>,
  \<open>process_file_write\<close>), so none of them is counted.
\<close>

theorem per_file_error_not_counted:
  assumes "process_file self w p = (self', w')"
  shows "process_files self w (p # rest) = process_files self' w' rest
    \<and> files_processed self' =
        files_processed self
        + (if (\<exists>e. last (logged w') = (ERROR, ErrorProcessing p e)) then 0 else 1)"
proof -
  have "files_processed (fst (process_file self w p)) =
        files_processed self
        + (if (\<exists>e. last (logged (snd (process_file self w p))) = (ERROR, ErrorProcessing p e))
           then 0 else 1)"
    unfolding process_file_def Let_def by (simp split: sum.splits prod.splits)
  with assms show ?thesis by simp
qed

text \<open>
  The unreadable file: the error is logged, the object is unchanged, and the loop
  continues with the rest of the list.
\<close>

theorem per_file_error_not_counted_witness:
  "process_file (updater ''10.0.0.1'' ''10.0.0.2'' True False)
      (world_of (one_file True False True ''Server at 10.0.0.1 ready'')) a_html
     = (updater ''10.0.0.1'' ''10.0.0.2'' True False,
        emit ERROR (ErrorProcessing a_html PermissionError)
          (world_of (one_file True False True ''Server at 10.0.0.1 ready'')))
   \<and> process_files (updater ''10.0.0.1'' ''10.0.0.2'' True False)
        (world_of (one_file True False True ''Server at 10.0.0.1 ready'')) [a_html, a_html]
     = process_files (updater ''10.0.0.1'' ''10.0.0.2'' True False)
        (emit ERROR (ErrorProcessing a_html PermissionError)
          (world_of (one_file True False True ''Server at 10.0.0.1 ready''))) [a_html]
   \<and> files_processed (fst (process_file (updater ''10.0.0.1'' ''10.0.0.2'' True False)
      (world_of (one_file True False True ''Server at 10.0.0.1 ready'')) a_html)) = 0"
proof -
  let ?self = "updater ''10.0.0.1'' ''10.0.0.2'' True False"
  let ?w = "world_of (one_file True False True ''Server at 10.0.0.1 ready'')"
  have h: "process_file ?self ?w a_html
             = (?self, emit ERROR (ErrorProcessing a_html PermissionError) ?w)"
    by code_simp
  have z: "files_processed ?self = 0" by (simp add: updater_def init_def Let_def)
  from per_file_error_not_counted[OF h, of "[a_html]"] h z show ?thesis by simp
qed





text \<open>
  C5. \<open>validate_inputs\<close> is meant to reject every address that is not four groups of one
  to three digits separated by dots, and its pattern is anchored with \<open>^\<close> and \<open>$\<close> for
  that. But \<open>$\<close> also matches before a newline that ends the string: the old address
  \<open>"10.0.0.1\n"\<close> does not have the shape and passes validation, in an existing
  directory and with a well-formed, different new address. Apart from this one trailing
  newline the claim holds: \<open>validate_inputs_accepts_iff\<close> gives the inputs accepted.
\<close>

theorem trailing_newline_passes_validation:
  "\<not> spec_ip_shape (py ''10.0.0.1'' @ [10])
   \<and> spec_ip_shape (py ''10.0.0.1'')
   \<and> validate_inputs
        (init ascii_lower [py ''site''] (py ''10.0.0.1'' @ [10]) (py ''10.0.0.2'') None True False)
        (one_file True True True ''Server at 10.0.0.1 ready'') = Inr ()"
  by code_simp

text \<open>
  C3, as stated: after the first pass no occurrence of the old address remains, so a
  second run modifies nothing. The replacement can itself produce the old address: with
  old \<open>1.1.1.1\<close> and new \<open>11.1.1.1\<close> (both valid and different) the file
  \<open>Host 1.1.1.1\<close> becomes \<open>Host 11.1.1.1\<close>, which still holds \<open>1.1.1.1\<close>, and a second
  run modifies it again, to \<open>Host 111.1.1.1\<close>.
\<close>

theorem second_run_modifies_again_counterexample:
  "validate_inputs (updater ''1.1.1.1'' ''11.1.1.1'' True False)
      (one_file True True True ''Host 1.1.1.1'') = Inr ()
   \<and> files_modified (updater_after_run (updater ''1.1.1.1'' ''11.1.1.1'' True False)
        (one_file True True True ''Host 1.1.1.1'')) = 1
   \<and> file_at (tree_after_run (updater ''1.1.1.1'' ''11.1.1.1'' True False)
        (one_file True True True ''Host 1.1.1.1'')) a_html
       = Some (True, True, ''Host 11.1.1.1'')
   \<and> str_count (py ''Host 11.1.1.1'') (py ''1.1.1.1'') = 1
   \<and> files_modified (updater_after_run (updater ''1.1.1.1'' ''11.1.1.1'' True False)
        (tree_after_run (updater ''1.1.1.1'' ''11.1.1.1'' True False)
           (one_file True True True ''Host 1.1.1.1''))) = 1
   \<and> file_at (tree_after_run (updater ''1.1.1.1'' ''11.1.1.1'' True False)
        (tree_after_run (updater ''1.1.1.1'' ''11.1.1.1'' True False)
           (one_file True True True ''Host 1.1.1.1''))) a_html
       = Some (True, True, ''Host 111.1.1.1'')"
  by code_simp

text \<open>
  C3, amended. After \<open>process_file\<close> has modified a file, with a new address that passed
  validation and differs from the old one, the file reads back as exactly the replaced
  text; a second pass over it leaves \<open>files_modified\<close> as it is if and only if that text
  holds no occurrence of the old address.
\<close>

theorem second_pass_unchanged_iff:
  assumes "re_match_anchored ip_pattern (new_ip self)"
    and "old_ip self \<noteq> new_ip self"
    and "read_text (fs w) p = Inr s"
    and "process_file self w p = (self1, w1)"
    and "last (logged w1) = (INFO, Modified p k)"
  shows "read_text (fs w1) p = Inr (str_replace s (old_ip self) (new_ip self))
    \<and> (files_modified (fst (process_file self1 w1 p)) = files_modified self1
         \<longleftrightarrow> str_count (str_replace s (old_ip self) (new_ip self)) (old_ip self) = 0)"
proof -
  from ip_pattern_scalar[OF assms(1)] have new: "\<forall>c \<in> set (new_ip self). scalar c \<and> c \<noteq> 13" .
  from modified_file_text[OF new assms(3,4,5)]
  have rd: "read_text (fs w1) p = Inr (str_replace s (old_ip self) (new_ip self))"
    and wc: "would_change self1 = would_change self" by simp_all
  have "would_change self (fs w1) p
        \<longleftrightarrow> 0 < str_count (str_replace s (old_ip self) (new_ip self)) (old_ip self)"
    using rd assms(2) by (rule would_change_iff)
  with wc rd show ?thesis by (simp add: process_file_files_modified)
qed

text \<open>
  With old \<open>10.0.0.1\<close> and new \<open>10.0.0.2\<close> the rewritten file holds no \<open>10.0.0.1\<close>, and
  the second pass leaves \<open>files_modified\<close> at 1.
\<close>

theorem second_pass_unchanged_iff_witness:
  "re_match_anchored ip_pattern (py ''10.0.0.2'')
   \<and> py ''10.0.0.1'' \<noteq> py ''10.0.0.2''
   \<and> read_text (fs (world_of (one_file True True True ''Server at 10.0.0.1 ready''))) a_html
       = Inr (py ''Server at 10.0.0.1 ready'')
   \<and> last (logged (snd (process_file (updater ''10.0.0.1'' ''10.0.0.2'' True False)
         (world_of (one_file True True True ''Server at 10.0.0.1 ready'')) a_html)))
       = (INFO, Modified a_html 1)
   \<and> read_text (fs (snd (process_file (updater ''10.0.0.1'' ''10.0.0.2'' True False)
         (world_of (one_file True True True ''Server at 10.0.0.1 ready'')) a_html))) a_html
       = Inr (py ''Server at 10.0.0.2 ready'')
   \<and> str_count (py ''Server at 10.0.0.2 ready'') (py ''10.0.0.1'') = 0
   \<and> files_modified (fst (process_file
         (fst (process_file (updater ''10.0.0.1'' ''10.0.0.2'' True False)
            (world_of (one_file True True True ''Server at 10.0.0.1 ready'')) a_html))
         (snd (process_file (updater ''10.0.0.1'' ''10.0.0.2'' True False)
            (world_of (one_file True True True ''Server at 10.0.0.1 ready'')) a_html))
         a_html)) = 1"
proof -
  let ?self = "updater ''10.0.0.1'' ''10.0.0.2'' True False"
  let ?w = "world_of (one_file True True True ''Server at 10.0.0.1 ready'')"
  let ?s = "py ''Server at 10.0.0.1 ready''"
  have o: "old_ip ?self = py ''10.0.0.1''" and n: "new_ip ?self = py ''10.0.0.2''"
    by (simp_all add: updater_def init_def Let_def)
  have m: "re_match_anchored ip_pattern (new_ip ?self)" by code_simp
  have ne: "old_ip ?self \<noteq> new_ip ?self" by code_simp
  have r: "read_text (fs ?w) a_html = Inr ?s" by code_simp
  have l: "last (logged (snd (process_file ?self ?w a_html))) = (INFO, Modified a_html 1)"
    by code_simp
  have p: "process_file ?self ?w a_html
            = (fst (process_file ?self ?w a_html), snd (process_file ?self ?w a_html))"
    by simp
  have c: "str_replace ?s (old_ip ?self) (new_ip ?self) = py ''Server at 10.0.0.2 ready''"
    by code_simp
  have z: "str_count (py ''Server at 10.0.0.2 ready'') (old_ip ?self) = 0" by code_simp
  have f: "files_modified (fst (process_file ?self ?w a_html)) = 1" by code_simp
  from second_pass_unchanged_iff[OF m ne r p l] m ne r l c z f o n show ?thesis by simp
qed

text \<open>
  C1, as stated: for a discovered file that holds the old address exactly once, a run
  with backups reports \<open>replacements_made = 1\<close> and leaves the files that do not match
  untouched. The count is a difference of occurrences of the new address, so it is 0 when
  the new address is part of the old one: with old \<open>10.0.0.1\<close> and new \<open>0.0.0.1\<close> the
  file is rewritten and \<open>replacements_made\<close> is 0. And an older \<open>a.html.bak\<close>, which does
  not match \<open>.html\<close>, is overwritten by the new backup.
\<close>

theorem single_occurrence_count_counterexample:
  "str_count (decode_text ''Server at 10.0.0.1 ready'') (py ''10.0.0.1'') = 1
   \<and> validate_inputs (updater ''10.0.0.1'' ''0.0.0.1'' True False)
        (two_files ''Server at 10.0.0.1 ready'') = Inr ()
   \<and> find_target_files ascii_lower (updater ''10.0.0.1'' ''0.0.0.1'' True False)
        (two_files ''Server at 10.0.0.1 ready'') = [a_html]
   \<and> file_at (tree_after_run (updater ''10.0.0.1'' ''0.0.0.1'' True False)
        (two_files ''Server at 10.0.0.1 ready'')) a_html
       = Some (True, True, ''Server at 0.0.0.1 ready'')
   \<and> files_modified (updater_after_run (updater ''10.0.0.1'' ''0.0.0.1'' True False)
        (two_files ''Server at 10.0.0.1 ready'')) = 1
   \<and> replacements_made (updater_after_run (updater ''10.0.0.1'' ''0.0.0.1'' True False)
        (two_files ''Server at 10.0.0.1 ready'')) = 0
   \<and> find_target_files ascii_lower (updater ''10.0.0.1'' ''10.0.0.2'' True False)
        (with_old_backup ''Server at 10.0.0.1 ready'' ''older'') = [a_html]
   \<and> file_at (with_old_backup ''Server at 10.0.0.1 ready'' ''older'') (backup_path a_html)
       = Some (True, True, ''older'')
   \<and> file_at (tree_after_run (updater ''10.0.0.1'' ''10.0.0.2'' True False)
        (with_old_backup ''Server at 10.0.0.1 ready'' ''older'')) (backup_path a_html)
       = Some (True, True, ''Server at 10.0.0.1 ready'')"
  by code_simp

text \<open>
  C1, amended. Let a run be valid, not dry, with backups, and let it discover the single
  file \<open>p\<close>, readable and writable, whose text holds the old address exactly once; let
  the backup be writable. Then the run returns normally; the file holds the encoding of
  its text with that occurrence exchanged for the new address (and reads back as that
  text); the \<open>.bak\<close> sibling holds the original bytes; every file other than these two is
  as before; \<open>files_processed\<close> and \<open>files_modified\<close> have advanced by one and
  \<open>replacements_made\<close> by the difference of occurrences of the new address.
\<close>

theorem single_occurrence_update:
  assumes v: "validate_inputs self (fs w) = Inr ()"
    and t: "find_target_files lower self (fs w) = [p]"
    and nd: "\<not> dry_run self" and bk: "backup self"
    and f: "file_at (fs w) p = Some (True, True, d)"
    and once: "str_count (decode_text d) (old_ip self) = 1"
    and name: "path_name p \<noteq> []" "47 \<notin> set (path_name p)"
    and b: "write_bytes (fs w) (backup_path p) d = Inr tb"
  shows "\<exists>a b d' self' w'. run lower self w = (Returned, self', w')
      \<and> decode_text d = a @ old_ip self @ b
      \<and> encode_text (a @ new_ip self @ b) = Some d'
      \<and> decode_text d' = a @ new_ip self @ b
      \<and> file_at (fs w') p = Some (True, True, d')
      \<and> (\<exists>r wr. file_at (fs w') (backup_path p) = Some (r, wr, d))
      \<and> (\<forall>q. q \<noteq> p \<and> q \<noteq> backup_path p \<longrightarrow> file_at (fs w') q = file_at (fs w) q)
      \<and> files_processed self' = files_processed self + 1
      \<and> files_modified self' = files_modified self + 1
      \<and> replacements_made self' = replacements_made self + replacements self (decode_text d)"
proof -
  let ?s = "decode_text d"
  let ?c = "str_replace ?s (old_ip self) (new_ip self)"
  let ?w0 = "emit INFO (FoundFiles 1) (log_start self w)"
  from v have ne: "old_ip self \<noteq> new_ip self"
    and m: "re_match_anchored ip_pattern (new_ip self)"
    by (simp_all add: validate_inputs_ok)
  from str_replace_once[OF once, of "new_ip self"] obtain a b'
    where ab: "?s = a @ old_ip self @ b'" "?c = a @ new_ip self @ b'" by blast
  have fs0: "fs ?w0 = fs w" by simp
  from f have rb: "read_bytes (fs w) p = Inr d" by (auto simp: read_bytes_file_at)
  then have rd: "read_text (fs ?w0) p = Inr ?s" by (simp add: read_text_def)
  have ch: "?c \<noteq> ?s"
    using once str_replace_changes_iff[OF ne, of ?s] by simp
  let ?w1 = "emit DEBUG (CreatedBackup (backup_path p)) (?w0\<lparr>fs := tb\<rparr>)"
  have bf: "backup_file (counted self ?s) ?w0 p = (Inr (), ?w1)"
    using backup_file_succeeds[OF name, of ?w0 d tb] rb b by simp
  from name(1) have pne: "p \<noteq> []" by (auto simp: path_name_def)
  have ftb: "file_at tb p = Some (True, True, d)"
    using write_bytes_frame[OF b, of p] backup_path_neq[OF pne] f by auto
  from encode_text_replace[OF ip_pattern_encodable[OF m], of d "old_ip self"]
  obtain d' where d': "encode_text ?c = Some d'" by blast
  from write_text_succeeds[OF ftb d'] obtain t' where wt: "write_text tb p ?c = (Inr (), t')"
    by blast
  have bk': "(if backup self then backup_file (counted self ?s) ?w0 p else (Inr (), ?w0))
      = (Inr (), ?w1)" using bk bf by simp
  have wt': "write_text (fs ?w1) p ?c = (Inr (), t')" using wt by simp
  let ?self' = "(counted self ?s)\<lparr>files_processed := files_processed self + 1\<rparr>"
  let ?w2 = "emit INFO (Modified p (replacements self ?s)) (?w1\<lparr>fs := t'\<rparr>)"
  have pf: "process_file self ?w0 p = (?self', ?w2)"
    using process_file_write[OF rd ch nd bk' wt'] by simp
  have r: "run lower self w = (Returned, ?self', log_summary ?self' ?w2)"
    using v t pf by (rule run_single)
  have fsw: "fs (log_summary ?self' ?w2) = t'" by simp
  from write_text_ok[OF wt] d' have
    p1: "\<forall>q. q \<noteq> p \<longrightarrow> file_at t' q = file_at tb q"
    and p2: "\<forall>r w d0. file_at tb p = Some (r, w, d0) \<longrightarrow> file_at t' p = Some (r, w, d')"
    by simp_all
  from p2 ftb have c1: "file_at t' p = Some (True, True, d')" by blast
  from write_bytes_stored_writable[OF b] obtain rr
    where "file_at tb (backup_path p) = Some (rr, True, d)" by blast
  with p1 backup_path_neq[OF pne] have c2: "file_at t' (backup_path p) = Some (rr, True, d)"
    by simp
  have c3: "\<forall>q. q \<noteq> p \<and> q \<noteq> backup_path p \<longrightarrow> file_at t' q = file_at (fs w) q"
    using p1 write_bytes_frame[OF b] by simp
  have rt: "decode_text d' = ?c"
    using replaced_text_roundtrip[OF ip_pattern_scalar[OF m], of d "old_ip self" d'] d' by simp
  have c2': "\<exists>r wr. file_at t' (backup_path p) = Some (r, wr, d)" using c2 by blast
  have "run lower self w = (Returned, ?self', log_summary ?self' ?w2)
      \<and> decode_text d = a @ old_ip self @ b'
      \<and> encode_text (a @ new_ip self @ b') = Some d'
      \<and> decode_text d' = a @ new_ip self @ b'
      \<and> file_at (fs (log_summary ?self' ?w2)) p = Some (True, True, d')
      \<and> (\<exists>r wr. file_at (fs (log_summary ?self' ?w2)) (backup_path p) = Some (r, wr, d))
      \<and> (\<forall>q. q \<noteq> p \<and> q \<noteq> backup_path p \<longrightarrow>
            file_at (fs (log_summary ?self' ?w2)) q = file_at (fs w) q)
      \<and> files_processed ?self' = files_processed self + 1
      \<and> files_modified ?self' = files_modified self + 1
      \<and> replacements_made ?self' = replacements_made self + replacements self (decode_text d)"
    unfolding fsw using r ab d' rt c1 c2' c3 by simp
  then show ?thesis by blast
qed

text \<open>
  The scenario of the specification: \<open>a.html\<close> and \<open>b.txt\<close> hold
  \<open>Server at 10.0.0.1 ready\<close>, the extension is \<open>.html\<close>. After the run \<open>a.html\<close> holds
  \<open>Server at 10.0.0.2 ready\<close>, \<open>a.html.bak\<close> the original text, \<open>b.txt\<close> is untouched, and
  the three counters are 1.
\<close>

theorem single_occurrence_update_witness:
  "validate_inputs (updater ''10.0.0.1'' ''10.0.0.2'' True False)
      (fs (world_of (two_files ''Server at 10.0.0.1 ready''))) = Inr ()
   \<and> find_target_files ascii_lower (updater ''10.0.0.1'' ''10.0.0.2'' True False)
      (fs (world_of (two_files ''Server at 10.0.0.1 ready''))) = [a_html]
   \<and> \<not> dry_run (updater ''10.0.0.1'' ''10.0.0.2'' True False)
   \<and> backup (updater ''10.0.0.1'' ''10.0.0.2'' True False)
   \<and> file_at (fs (world_of (two_files ''Server at 10.0.0.1 ready''))) a_html
       = Some (True, True, ''Server at 10.0.0.1 ready'')
   \<and> str_count (decode_text ''Server at 10.0.0.1 ready'')
        (old_ip (updater ''10.0.0.1'' ''10.0.0.2'' True False)) = 1
   \<and> path_name a_html \<noteq> [] \<and> 47 \<notin> set (path_name a_html)
   \<and> write_bytes (fs (world_of (two_files ''Server at 10.0.0.1 ready'')))
        (backup_path a_html) ''Server at 10.0.0.1 ready''
       = Inr (Dir True [(py ''site'', Dir True
           [(py ''a.html'', File True True ''Server at 10.0.0.1 ready''),
            (py ''b.txt'', File True True ''Server at 10.0.0.1 ready''),
            (py ''a.html.bak'', File True True ''Server at 10.0.0.1 ready'')])])
   \<and> fst (run ascii_lower (updater ''10.0.0.1'' ''10.0.0.2'' True False)
        (world_of (two_files ''Server at 10.0.0.1 ready''))) = Returned
   \<and> files_processed (updater_after_run (updater ''10.0.0.1'' ''10.0.0.2'' True False)
        (two_files ''Server at 10.0.0.1 ready'')) = 1
   \<and> files_modified (updater_after_run (updater ''10.0.0.1'' ''10.0.0.2'' True False)
        (two_files ''Server at 10.0.0.1 ready'')) = 1
   \<and> replacements_made (updater_after_run (updater ''10.0.0.1'' ''10.0.0.2'' True False)
        (two_files ''Server at 10.0.0.1 ready'')) = 1
   \<and> file_at (tree_after_run (updater ''10.0.0.1'' ''10.0.0.2'' True False)
        (two_files ''Server at 10.0.0.1 ready'')) a_html
       = Some (True, True, ''Server at 10.0.0.2 ready'')
   \<and> file_at (tree_after_run (updater ''10.0.0.1'' ''10.0.0.2'' True False)
        (two_files ''Server at 10.0.0.1 ready'')) (backup_path a_html)
       = Some (True, True, ''Server at 10.0.0.1 ready'')
   \<and> file_at (tree_after_run (updater ''10.0.0.1'' ''10.0.0.2'' True False)
        (two_files ''Server at 10.0.0.1 ready'')) b_txt
       = Some (True, True, ''Server at 10.0.0.1 ready'')"
proof -
  let ?self = "updater ''10.0.0.1'' ''10.0.0.2'' True False"
  let ?d = "''Server at 10.0.0.1 ready''"
  let ?w = "world_of (two_files ?d)"
  let ?tb = "Dir True [(py ''site'', Dir True
           [(py ''a.html'', File True True ?d),
            (py ''b.txt'', File True True ?d),
            (py ''a.html.bak'', File True True ?d)])]"
  have v: "validate_inputs ?self (fs ?w) = Inr ()" by code_simp
  have t: "find_target_files ascii_lower ?self (fs ?w) = [a_html]" by code_simp
  have nd: "\<not> dry_run ?self" and bk: "backup ?self"
    and z: "files_processed ?self = 0" "files_modified ?self = 0" "replacements_made ?self = 0"
    by (simp_all add: updater_def init_def Let_def)
  have f: "file_at (fs ?w) a_html = Some (True, True, ?d)" by code_simp
  have once: "str_count (decode_text ?d) (old_ip ?self) = 1" by code_simp
  have n1: "path_name a_html \<noteq> []" by code_simp
  have n2: "47 \<notin> set (path_name a_html)" by code_simp
  have b: "write_bytes (fs ?w) (backup_path a_html) ?d = Inr ?tb" by code_simp
  have k: "replacements ?self (decode_text ?d) = 1" by code_simp
  have a: "file_at (tree_after_run ?self (two_files ?d)) a_html
            = Some (True, True, ''Server at 10.0.0.2 ready'')" by code_simp
  have c: "file_at (tree_after_run ?self (two_files ?d)) (backup_path a_html)
            = Some (True, True, ?d)" by code_simp
  have u: "file_at (tree_after_run ?self (two_files ?d)) b_txt = Some (True, True, ?d)"
    by code_simp
  from single_occurrence_update[OF v t nd bk f once n1 n2 b]
  obtain self' w' where r: "run ascii_lower ?self ?w = (Returned, self', w')"
    and cnt: "files_processed self' = files_processed ?self + 1"
      "files_modified self' = files_modified ?self + 1"
      "replacements_made self' = replacements_made ?self + replacements ?self (decode_text ?d)"
    by blast
  from r have s: "updater_after_run ?self (two_files ?d) = self'"
    and o: "fst (run ascii_lower ?self ?w) = Returned"
    by (simp_all add: updater_after_run_def)
  from cnt z k s have n: "files_processed (updater_after_run ?self (two_files ?d)) = 1"
    "files_modified (updater_after_run ?self (two_files ?d)) = 1"
    "replacements_made (updater_after_run ?self (two_files ?d)) = 1"
    by simp_all
  from v t nd bk f once n1 n2 b o n a c u show ?thesis by simp
qed

end
